theory Spec2Isabelle
  imports Complex_Main
begin

section \<open>The DOM fragment the layer stack lives in\<close>

text \<open>
  The plugin keeps no list of its layers. Every layer owns a root element, the root
  elements are children of one container element, and the container's child order is
  the stacking order. An element is a number; the document is a store of child lists,
  parent pointers and the \<open>__cy_layer\<close> expando that the layer constructors write on
  their elements.
\<close>

type_synonym elem = nat

datatype error = TypeError | HierarchyRequestError | NotFoundError | HeadlessError

datatype layer_type = Svg | Html | Canvas | CyNode | CyDrag | CySelectBox

record layer =
  ltype :: layer_type
  root_el :: elem
  node :: elem

record dom =
  children :: "elem \<Rightarrow> elem list"
  parentElement :: "elem \<Rightarrow> elem option"
  cy_layer :: "elem \<Rightarrow> layer option"
  data_id :: "elem \<Rightarrow> string option"
  next_elem :: elem

text \<open>\<open>document.createElement\<close>: a new element, with no parent and no child.\<close>

definition createElement :: "dom \<Rightarrow> elem \<times> dom" where
  "createElement d = (next_elem d, d\<lparr>next_elem := Suc (next_elem d)\<rparr>)"

text \<open>
  \<open>is_ancestor par k a x\<close>: \<open>a\<close> is \<open>x\<close> or one of the first \<open>k\<close> ancestors of \<open>x\<close>.
  The DOM refuses to insert a node below itself (HierarchyRequestError); the walk up the
  parent chain is bounded by the number of elements ever created.
\<close>

fun is_ancestor :: "(elem \<Rightarrow> elem option) \<Rightarrow> nat \<Rightarrow> elem \<Rightarrow> elem \<Rightarrow> bool" where
  "is_ancestor par 0 a x = (a = x)"
| "is_ancestor par (Suc k) a x =
     (a = x \<or> (case par x of None \<Rightarrow> False | Some p \<Rightarrow> is_ancestor par k a p))"

text \<open>Taking an element out of its parent's child list (the DOM's "remove").\<close>

definition detach :: "dom \<Rightarrow> elem \<Rightarrow> dom" where
  "detach d e =
     (case parentElement d e of
        None \<Rightarrow> d
      | Some p \<Rightarrow> d\<lparr>children := (children d)(p := removeAll e (children d p)),
                     parentElement := (parentElement d)(e := None)\<rparr>)"

text \<open>
  The DOM's insertion step, shared by \<open>appendChild\<close> and \<open>insertBefore\<close>: the element
  leaves its old place, then enters the child list of \<open>p\<close> where \<open>f\<close> puts it.
\<close>

definition place :: "dom \<Rightarrow> elem \<Rightarrow> elem \<Rightarrow> (elem list \<Rightarrow> elem list) \<Rightarrow> dom" where
  "place d p e f =
     (let d1 = detach d e
      in d1\<lparr>children := (children d1)(p := f (children d1 p)),
            parentElement := (parentElement d1)(e := Some p)\<rparr>)"

text \<open>\<open>parent.appendChild(e)\<close>: \<open>e\<close> becomes the last child.\<close>

definition appendChild :: "dom \<Rightarrow> elem \<Rightarrow> elem \<Rightarrow> error + dom" where
  "appendChild d p e =
     (if is_ancestor (parentElement d) (next_elem d) e p then Inl HierarchyRequestError
      else Inr (place d p e (\<lambda>cs. cs @ [e])))"

text \<open>
  \<open>parent.insertBefore(e, ref)\<close>: NotFoundError when \<open>ref\<close> is not a child of
  \<open>parent\<close>; inserting an element before itself leaves it where it is.
\<close>

definition insertBefore :: "dom \<Rightarrow> elem \<Rightarrow> elem \<Rightarrow> elem \<Rightarrow> error + dom" where
  "insertBefore d p e ref =
     (if is_ancestor (parentElement d) (next_elem d) e p then Inl HierarchyRequestError
      else if parentElement d ref \<noteq> Some p then Inl NotFoundError
      else if e = ref then Inr d
      else Inr (place d p e
                  (\<lambda>cs. takeWhile (\<lambda>c. c \<noteq> ref) cs @ e # dropWhile (\<lambda>c. c \<noteq> ref) cs)))"

text \<open>
  \<open>ref.insertAdjacentElement(where, e)\<close> for the two positions the plugin uses. With
  no parent the DOM does nothing and returns null; it does not throw.
\<close>

datatype where_pos = Before | After

definition insertAdjacentElement :: "dom \<Rightarrow> elem \<Rightarrow> where_pos \<Rightarrow> elem \<Rightarrow> error + dom" where
  "insertAdjacentElement d ref w e =
     (case parentElement d ref of
        None \<Rightarrow> Inr d
      | Some p \<Rightarrow>
          (case w of
             Before \<Rightarrow> insertBefore d p e ref
           | After \<Rightarrow>
               (case tl (dropWhile (\<lambda>c. c \<noteq> ref) (children d p)) of
                  [] \<Rightarrow> appendChild d p e
                | nxt # _ \<Rightarrow> insertBefore d p e nxt)))"


section \<open>Layers\<close>

text \<open>
  \<open>HTMLLayer\<close> and \<open>SVGLayer\<close>: the constructor creates the root, writes the
  back-reference on it, creates the inner node, writes the back-reference there too and
  appends the node to the root.
\<close>

definition new_dom_layer :: "layer_type \<Rightarrow> dom \<Rightarrow> layer \<times> dom" where
  "new_dom_layer ty d =
     (let (r, d1) = createElement d;
          (n, d2) = createElement d1;
          this = \<lparr>ltype = ty, root_el = r, node = n\<rparr>;
          d3 = d2\<lparr>cy_layer := (cy_layer d2)(r := Some this, n := Some this)\<rparr>
      in (this, d3\<lparr>children := (children d3)(r := children d3 r @ [n]),
                    parentElement := (parentElement d3)(n := Some r)\<rparr>))"

text \<open>
  Modelled from the spec: the class \<open>CanvasLayer\<close> is not among the sources. A Surface
  keeps "a back-reference from its root container to itself (for stack introspection)";
  the drawing surface is one canvas element, which is its root and its node.
\<close>

definition new_canvas_layer :: "dom \<Rightarrow> layer \<times> dom" where
  "new_canvas_layer d =
     (let (c, d1) = createElement d;
          this = \<lparr>ltype = Canvas, root_el = c, node = c\<rparr>
      in (this, d1\<lparr>cy_layer := (cy_layer d1)(c := Some this)\<rparr>))"

text \<open>The argument of \<open>append\<close>/\<open>insert\<close>: \<open>'svg'\<close>, \<open>'html'\<close> or a render function.\<close>

datatype kind = KSvg | KHtml | KRender


section \<open>LayersPlugin: the layer stack\<close>

text \<open>
  The plugin object. \<open>pid\<close> stands for the identity of the object: two plugins built by
  two \<open>new LayersPlugin(cy)\<close> differ in it even when their layers are the same.
\<close>

record plugin =
  pid :: nat
  nodeLayer :: layer
  dragLayer :: layer
  selectBoxLayer :: layer

text \<open>\<open>get root()\<close>: the parent of the node layer's canvas.\<close>

definition plugin_root :: "plugin \<Rightarrow> dom \<Rightarrow> elem option" where
  "plugin_root p d = parentElement d (node (nodeLayer p))"

text \<open>
  \<open>get layers()\<close>: the container's children, mapped to their back-reference, those
  without one dropped. Reading \<open>children\<close> of a null root is a TypeError.
\<close>

definition plugin_layers :: "plugin \<Rightarrow> dom \<Rightarrow> error + layer list" where
  "plugin_layers p d =
     (case plugin_root p d of
        None \<Rightarrow> Inl TypeError
      | Some r \<Rightarrow> Inr (List.map_filter (cy_layer d) (children d r)))"

definition getLayers :: "plugin \<Rightarrow> dom \<Rightarrow> error + layer list" where
  "getLayers p d = plugin_layers p d"

text \<open>\<open>Array.prototype.indexOf\<close>: the first index, or -1.\<close>

fun indexOf :: "'a list \<Rightarrow> 'a \<Rightarrow> int" where
  "indexOf [] x = - 1"
| "indexOf (y # ys) x =
     (if y = x then 0 else (let i = indexOf ys x in if i < 0 then - 1 else i + 1))"

text \<open>
  \<open>move\<close>. \<open>Math.min\<close> is given three arguments, \<open>index + offset\<close>, \<open>l.length\<close> and
  \<open>0\<close>, and \<open>Math.max\<close> only one, so \<open>Math.max\<close> returns it as it is. A negative
  \<open>target\<close> makes \<open>l[target]\<close> undefined, and reading \<open>.root\<close> of it is a TypeError.
\<close>

definition move_target :: "int \<Rightarrow> int \<Rightarrow> nat \<Rightarrow> int" where
  "move_target index offset len = min (index + offset) (min (int len) 0)"

definition move :: "plugin \<Rightarrow> dom \<Rightarrow> layer \<Rightarrow> int \<Rightarrow> error + dom" where
  "move p d layer offset =
     (case plugin_layers p d of
        Inl e \<Rightarrow> Inl e
      | Inr l \<Rightarrow>
          (let index = indexOf l layer;
               target = move_target index offset (length l)
           in if target = index then Inr d
              else (case plugin_root p d of
                      None \<Rightarrow> Inl TypeError
                    | Some r \<Rightarrow>
                        if index \<ge> int (length l) - 1 then appendChild d r (root_el layer)
                        else if target < 0 \<or> target \<ge> int (length l) then Inl TypeError
                        else insertBefore d r (root_el layer) (root_el (l ! nat target)))))"

text \<open>
  \<open>createLayer\<close>. \<open>init\<close> sizes the new layer and sets its viewport; it does not touch
  the child order and is left out of the structural model.
\<close>

definition createLayer :: "kind \<Rightarrow> dom \<Rightarrow> layer \<times> dom" where
  "createLayer k d =
     (case k of
        KSvg \<Rightarrow> new_dom_layer Svg d
      | KHtml \<Rightarrow> new_dom_layer Html d
      | KRender \<Rightarrow> new_canvas_layer d)"

definition append :: "plugin \<Rightarrow> dom \<Rightarrow> kind \<Rightarrow> error + (dom \<times> layer)" where
  "append p d k =
     (let (layer, d1) = createLayer k d
      in case plugin_root p d1 of
           None \<Rightarrow> Inl TypeError
         | Some r \<Rightarrow>
             (case appendChild d1 r (root_el layer) of
                Inl e \<Rightarrow> Inl e
              | Inr d2 \<Rightarrow> Inr (d2, layer)))"

definition insert :: "plugin \<Rightarrow> dom \<Rightarrow> where_pos \<Rightarrow> layer \<Rightarrow> kind \<Rightarrow> error + (dom \<times> layer)" where
  "insert p d w ref k =
     (let (layer, d1) = createLayer k d
      in case insertAdjacentElement d1 (root_el ref) w (root_el layer) of
           Inl e \<Rightarrow> Inl e
         | Inr d2 \<Rightarrow> Inr (d2, layer))"

definition getLast :: "plugin \<Rightarrow> dom \<Rightarrow> error + layer option" where
  "getLast p d =
     (case plugin_layers p d of
        Inl e \<Rightarrow> Inl e
      | Inr l \<Rightarrow> Inr (if l = [] then None else Some (last l)))"

definition getFirst :: "plugin \<Rightarrow> dom \<Rightarrow> error + layer option" where
  "getFirst p d =
     (case plugin_layers p d of
        Inl e \<Rightarrow> Inl e
      | Inr l \<Rightarrow> Inr (case l of [] \<Rightarrow> None | x # _ \<Rightarrow> Some x))"

text \<open>
  Sequences of stack operations, as a caller issues them. An exception ends the
  sequence; the operation that threw has not changed the document.
\<close>

datatype op = Append kind | Insert where_pos layer kind | Move layer int

definition apply_op :: "plugin \<Rightarrow> dom \<Rightarrow> op \<Rightarrow> error + dom" where
  "apply_op p d c =
     (case c of
        Append k \<Rightarrow> (case append p d k of Inl e \<Rightarrow> Inl e | Inr (d', _) \<Rightarrow> Inr d')
      | Insert w ref k \<Rightarrow> (case insert p d w ref k of Inl e \<Rightarrow> Inl e | Inr (d', _) \<Rightarrow> Inr d')
      | Move l offset \<Rightarrow> move p d l offset)"

fun run :: "plugin \<Rightarrow> dom \<Rightarrow> op list \<Rightarrow> error + dom" where
  "run p d [] = Inr d"
| "run p d (c # cs) = (case apply_op p d c of Inl e \<Rightarrow> Inl e | Inr d' \<Rightarrow> run p d' cs)"

text \<open>
  A layer object of the document: its root element carries the back-reference to it, as
  every layer constructor leaves it. \<open>move\<close> is only ever handed such objects.
\<close>

definition known_layer :: "dom \<Rightarrow> layer \<Rightarrow> bool" where
  "known_layer d l = (cy_layer d (root_el l) = Some l)"

fun ops_known :: "plugin \<Rightarrow> dom \<Rightarrow> op list \<Rightarrow> bool" where
  "ops_known p d [] = True"
| "ops_known p d (c # cs) =
     ((case c of Move l _ \<Rightarrow> known_layer d l | _ \<Rightarrow> True) \<and>
      (case apply_op p d c of Inl _ \<Rightarrow> True | Inr d' \<Rightarrow> ops_known p d' cs))"

text \<open>
  Well-formed documents: child lists and parent pointers agree, every element that has a
  place was created, and elements not yet created carry no back-reference.
\<close>

definition wf_dom :: "dom \<Rightarrow> bool" where
  "wf_dom d \<longleftrightarrow>
     (\<forall>p e. e \<in> set (children d p) \<longleftrightarrow> parentElement d e = Some p) \<and>
     (\<forall>e p. parentElement d e = Some p \<longrightarrow> e < next_elem d \<and> p < next_elem d) \<and>
     (\<forall>e. next_elem d \<le> e \<longrightarrow> cy_layer d e = None)"

text \<open>Every child of the container \<open>r\<close> is the root of the layer it points back to.\<close>

definition backrefs_ok :: "dom \<Rightarrow> elem \<Rightarrow> bool" where
  "backrefs_ok d r =
     list_all (\<lambda>c. case cy_layer d c of None \<Rightarrow> False | Some l \<Rightarrow> root_el l = c) (children d r)"

definition stack_inv :: "plugin \<Rightarrow> dom \<Rightarrow> elem \<Rightarrow> bool" where
  "stack_inv p d r \<longleftrightarrow> wf_dom d \<and> plugin_root p d = Some r \<and> backrefs_ok d r"

text \<open>
  A small document for the examples. Element \<open>0\<close> is the host's container, \<open>1\<close> the
  element inside it that holds the three canvases of the host, \<open>2\<close>, \<open>3\<close> and \<open>4\<close>.
  Element \<open>5\<close> is the container of another graph, with \<open>6\<close> and the canvas \<open>7\<close>.
\<close>

definition cyl :: "layer_type \<Rightarrow> elem \<Rightarrow> layer" where
  "cyl ty c = \<lparr>ltype = ty, root_el = c, node = c\<rparr>"

definition dom0 :: dom where
  "dom0 = \<lparr>children = (\<lambda>_. [])(0 := [1], 1 := [2, 3, 4], 5 := [6], 6 := [7]),
           parentElement = (\<lambda>_. None)(1 := Some 0, 2 := Some 1, 3 := Some 1, 4 := Some 1,
                                        6 := Some 5, 7 := Some 6),
           cy_layer = (\<lambda>_. None)(2 := Some (cyl CySelectBox 2), 3 := Some (cyl CyDrag 3),
                                   4 := Some (cyl CyNode 4), 7 := Some (cyl CyNode 7)),
           data_id = (\<lambda>_. None)(2 := Some ''layer0-selectbox'', 3 := Some ''layer1-drag'',
                                  4 := Some ''layer2-node'', 7 := Some ''layer2-node''),
           next_elem = 8\<rparr>"

definition plugin0 :: plugin where
  "plugin0 = \<lparr>pid = 0, nodeLayer = cyl CyNode 4, dragLayer = cyl CyDrag 3,
              selectBoxLayer = cyl CySelectBox 2\<rparr>"

definition ops0 :: "op list" where
  "ops0 = [Insert After (cyl CySelectBox 2) KHtml, Append KRender, Move (cyl CyDrag 3) 1]"

text \<open>What the specification asks of \<open>move\<close>: the index plus the offset, clamped.\<close>

definition clamped_position :: "int \<Rightarrow> int \<Rightarrow> nat \<Rightarrow> int" where
  "clamped_position index offset len = max 0 (min (index + offset) (int len - 1))"


section \<open>The accessor \<open>layers(cy)\<close>\<close>

text \<open>
  What the accessor uses of the host core: its container, its scratch storage and its
  listener list. \<open>plugins_made\<close> counts the plugin objects constructed so far and gives
  the next one its identity.
\<close>

datatype plugin_handler = Zoomed | Resize | Destroy

record core =
  container :: "elem option"
  scratch :: "string \<Rightarrow> plugin option"
  core_listeners :: "(string \<times> nat \<times> plugin_handler) list"
  plugins_made :: nat

text \<open>The descendants of an element in document order, to a bounded depth.\<close>

fun descendants :: "(elem \<Rightarrow> elem list) \<Rightarrow> nat \<Rightarrow> elem \<Rightarrow> elem list" where
  "descendants ch 0 e = []"
| "descendants ch (Suc k) e = concat (map (\<lambda>c. c # descendants ch k c) (ch e))"

text \<open>\<open>container.querySelector('[data-id="..."]')\<close>: the first match, or null.\<close>

definition querySelector :: "dom \<Rightarrow> elem \<Rightarrow> string \<Rightarrow> elem option" where
  "querySelector d c i =
     find (\<lambda>e. data_id d e = Some i) (descendants (children d) (next_elem d) c)"

text \<open>
  Modelled from the spec: the classes \<open>CytoscapeNodeLayer\<close>, \<open>CytoscapeDragLayer\<close> and
  \<open>CytoscapeSelectBoxLayer\<close> are not among the sources. They wrap a canvas of the host;
  like every Surface they keep "a back-reference from its root container to itself".
  The plugin hands them the result of \<open>querySelector\<close> under a non-null assertion that
  is not checked at run time; writing the back-reference on null is a TypeError.
\<close>

definition new_cy_layer :: "layer_type \<Rightarrow> elem option \<Rightarrow> dom \<Rightarrow> error + (layer \<times> dom)" where
  "new_cy_layer ty c d =
     (case c of
        None \<Rightarrow> Inl TypeError
      | Some e \<Rightarrow>
          (let this = \<lparr>ltype = ty, root_el = e, node = e\<rparr>
           in Inr (this, d\<lparr>cy_layer := (cy_layer d)(e := Some this)\<rparr>)))"

text \<open>The constructor of \<open>LayersPlugin\<close>: three layers, then three listeners on the core.\<close>

definition new_LayersPlugin :: "dom \<Rightarrow> core \<Rightarrow> error + (dom \<times> core \<times> plugin)" where
  "new_LayersPlugin d cy =
     (case container cy of
        None \<Rightarrow> Inl TypeError
      | Some c \<Rightarrow>
          (case new_cy_layer CyNode (querySelector d c ''layer2-node'') d of
             Inl e \<Rightarrow> Inl e
           | Inr (nl, d1) \<Rightarrow>
               (case new_cy_layer CyDrag (querySelector d1 c ''layer1-drag'') d1 of
                  Inl e \<Rightarrow> Inl e
                | Inr (dl, d2) \<Rightarrow>
                    (case new_cy_layer CySelectBox (querySelector d2 c ''layer0-selectbox'') d2 of
                       Inl e \<Rightarrow> Inl e
                     | Inr (sl, d3) \<Rightarrow>
                         (let i = plugins_made cy;
                              this = \<lparr>pid = i, nodeLayer = nl, dragLayer = dl, selectBoxLayer = sl\<rparr>
                          in Inr (d3,
                                  cy\<lparr>core_listeners := core_listeners cy @
                                        [(''viewport'', i, Zoomed), (''resize'', i, Resize),
                                         (''destroy'', i, Destroy)],
                                      plugins_made := Suc i\<rparr>,
                                  this))))))"

text \<open>
  \<open>layers(cy)\<close>: refuses a core without container, returns the plugin found in the
  scratch storage under \<open>_layers\<close>, and otherwise builds one and stores it.
\<close>

definition layers :: "dom \<Rightarrow> core \<Rightarrow> error + (dom \<times> core \<times> plugin)" where
  "layers d cy =
     (if container cy = None then Inl HeadlessError
      else case scratch cy ''_layers'' of
             Some singleton \<Rightarrow> Inr (d, cy, singleton)
           | None \<Rightarrow>
               (case new_LayersPlugin d cy of
                  Inl e \<Rightarrow> Inl e
                | Inr (d', cy', plugin) \<Rightarrow>
                    Inr (d', cy'\<lparr>scratch := (scratch cy')(''_layers'' := Some plugin)\<rparr>, plugin)))"

text \<open>Calling the accessor \<open>n\<close> more times, each call on the state the last one left.\<close>

fun layers_again :: "nat \<Rightarrow> dom \<times> core \<times> plugin \<Rightarrow> error + (dom \<times> core \<times> plugin)" where
  "layers_again 0 r = Inr r"
| "layers_again (Suc n) (d, cy, p) =
     (case layers d cy of Inl e \<Rightarrow> Inl e | Inr r \<Rightarrow> layers_again n r)"

definition core0 :: core where
  "core0 = \<lparr>container = Some 0, scratch = (\<lambda>_. None), core_listeners = [], plugins_made = 0\<rparr>"


section \<open>renderPerNode: the binding and the host's events\<close>

type_synonym node_id = nat

datatype position_mode = PNone | TopLeft | Center

text \<open>
  The merged options \<open>o\<close>. \<open>updateOn\<close> is \<open>'none'\<close>, \<open>'render'\<close> or event names;
  \<open>defaultElementLayerOptions\<close> is not among the sources, so the merged record is what
  the model starts from.
\<close>

record options =
  selector :: string
  updateOn :: string
  queryEachTime :: bool
  checkBounds :: bool
  position :: position_mode
  uniqueElements :: bool
  allowPartialUpdate :: bool
  transform :: string

definition updateOn_events :: "options \<Rightarrow> bool" where
  "updateOn_events opts = (updateOn opts \<noteq> ''none'' \<and> updateOn opts \<noteq> ''render'')"

text \<open>
  The host's emitter. A listener is registered on the core (with a selector when it is a
  delegate) or on one element; \<open>one\<close> registers a listener that is dropped when it
  fires. An event string names several events, separated by spaces.
\<close>

datatype target = Cy | El node_id

datatype handler = RevaluateAndUpdateOnce | RemoveNode | LayerUpdateOnRenderOnce | RenderOnce

record listener =
  l_target :: target
  l_event :: string
  l_selector :: "string option"
  l_handler :: handler
  l_once :: bool

fun words :: "string \<Rightarrow> string list" where
  "words [] = [[]]"
| "words (c # cs) =
     (if c = CHR '' '' then [] # words cs
      else (case words cs of [] \<Rightarrow> [[c]] | w # ws \<Rightarrow> (c # w) # ws))"

definition event_names :: "string \<Rightarrow> string list" where
  "event_names s = filter (\<lambda>w. w \<noteq> []) (words s)"

text \<open>
  What the binding calls on the layer and on the caller, in order. \<open>Update hint cache\<close>
  is \<open>layer.update(hint)\<close>, with the cached collection the renderer finds when the layer
  runs it; the layer's methods themselves are not among the sources.
\<close>

datatype effect =
    InitCollection "node_id list"
  | UpdateOnRenderOnce
  | Update "node_id option" "node_id list"
  | CallbackRemoved

text \<open>
  The closure of one \<open>renderPerNode\<close> call, together with the host state it reads:
  \<open>cy_nodes\<close> is what \<open>layer.cy.nodes(opts.selector)\<close> returns now.
\<close>

record binding =
  nodes :: "node_id list"
  updateOnRenderOnceEnabled :: bool
  listeners :: "listener list"
  updateOnRender :: bool
  cy_nodes :: "node_id list"
  trace :: "effect list"

definition cy_on :: "string \<Rightarrow> string \<Rightarrow> handler \<Rightarrow> binding \<Rightarrow> binding" where
  "cy_on evs sel h s =
     s\<lparr>listeners := listeners s @
          map (\<lambda>e. \<lparr>l_target = Cy, l_event = e, l_selector = Some sel, l_handler = h,
                     l_once = False\<rparr>) (event_names evs)\<rparr>"

text \<open>\<open>off\<close> removes every listener that matches, not only the first.\<close>

definition cy_off :: "string \<Rightarrow> string \<Rightarrow> handler \<Rightarrow> binding \<Rightarrow> binding" where
  "cy_off evs sel h s =
     s\<lparr>listeners := filter (\<lambda>l. \<not> (l_target l = Cy \<and> l_event l \<in> set (event_names evs) \<and>
                                   l_selector l = Some sel \<and> l_handler l = h)) (listeners s)\<rparr>"

definition nodes_on :: "node_id list \<Rightarrow> string \<Rightarrow> handler \<Rightarrow> binding \<Rightarrow> binding" where
  "nodes_on ns evs h s =
     s\<lparr>listeners := listeners s @
          concat (map (\<lambda>n. map (\<lambda>e. \<lparr>l_target = El n, l_event = e, l_selector = None,
                                      l_handler = h, l_once = False\<rparr>) (event_names evs)) ns)\<rparr>"

definition nodes_off :: "node_id list \<Rightarrow> string \<Rightarrow> handler \<Rightarrow> binding \<Rightarrow> binding" where
  "nodes_off ns evs h s =
     s\<lparr>listeners := filter (\<lambda>l. \<not> ((case l_target l of El n \<Rightarrow> n \<in> set ns | Cy \<Rightarrow> False) \<and>
                                   l_event l \<in> set (event_names evs) \<and> l_handler l = h))
                        (listeners s)\<rparr>"

definition render_once_listener :: listener where
  "render_once_listener =
     \<lparr>l_target = Cy, l_event = ''render'', l_selector = None, l_handler = RenderOnce,
      l_once = True\<rparr>"

definition call :: "effect \<Rightarrow> binding \<Rightarrow> binding" where
  "call e s = s\<lparr>trace := trace s @ [e]\<rparr>"

text \<open>\<open>layer.update(hint)\<close>.\<close>

definition layer_update :: "node_id option \<Rightarrow> binding \<Rightarrow> binding" where
  "layer_update hint s = call (Update hint (nodes s)) s"

text \<open>\<open>revaluateAndUpdateOnce\<close>: the flag, then one one-shot listener on \<open>render\<close>.\<close>

definition revaluateAndUpdateOnce :: "binding \<Rightarrow> binding" where
  "revaluateAndUpdateOnce s =
     (if updateOnRenderOnceEnabled s then s
      else s\<lparr>updateOnRenderOnceEnabled := True,
             listeners := listeners s @ [render_once_listener]\<rparr>)"

text \<open>\<open>removeNode\<close>: \<open>nodes.difference(node)\<close>, then \<open>layer.update(node)\<close>.\<close>

definition removeNode :: "node_id \<Rightarrow> binding \<Rightarrow> binding" where
  "removeNode n s = layer_update (Some n) (s\<lparr>nodes := removeAll n (nodes s)\<rparr>)"

text \<open>\<open>reevaluateCollection(current)\<close>; the caller assigns the result to \<open>nodes\<close>.\<close>

definition reevaluateCollection :: "options \<Rightarrow> node_id list \<Rightarrow> binding \<Rightarrow> node_id list \<times> binding" where
  "reevaluateCollection opts current s =
     (let s1 = (if updateOn_events opts then nodes_off current (updateOn opts) LayerUpdateOnRenderOnce s
                else s);
          s2 = (if allowPartialUpdate opts then cy_off ''remove'' (selector opts) RemoveNode s1 else s1);
          newNodes = cy_nodes s2;
          s3 = call (InitCollection newNodes) s2;
          s4 = (if updateOn_events opts then nodes_on newNodes (updateOn opts) LayerUpdateOnRenderOnce s3
                else s3);
          s5 = (if allowPartialUpdate opts then cy_on ''remove'' (selector opts) RemoveNode s4 else s4)
      in (newNodes, call UpdateOnRenderOnce s5))"

definition reevaluate :: "options \<Rightarrow> binding \<Rightarrow> binding" where
  "reevaluate opts s = (let (ns, s') = reevaluateCollection opts (nodes s) s in s'\<lparr>nodes := ns\<rparr>)"

text \<open>The callback that \<open>revaluateAndUpdateOnce\<close> hands to \<open>cy.one('render', ...)\<close>.\<close>

definition render_once_callback :: "options \<Rightarrow> binding \<Rightarrow> binding" where
  "render_once_callback opts s =
     layer_update None (reevaluate opts (s\<lparr>updateOnRenderOnceEnabled := False\<rparr>))"

text \<open>
  The body of \<open>renderPerNode\<close> up to the choice of the renderer, from a fresh closure:
  \<open>nodes\<close> is the empty collection and no update is pending.
\<close>

definition fresh_binding :: "node_id list \<Rightarrow> binding" where
  "fresh_binding host =
     \<lparr>nodes = [], updateOnRenderOnceEnabled = False, listeners = [], updateOnRender = False,
      cy_nodes = host, trace = []\<rparr>"

definition renderPerNode :: "options \<Rightarrow> binding \<Rightarrow> binding" where
  "renderPerNode opts s =
     (let s1 = (if updateOn opts = ''render'' then s\<lparr>updateOnRender := True\<rparr> else s)
      in if \<not> queryEachTime opts then
           (let s2 = reevaluate opts s1
            in if allowPartialUpdate opts \<and> updateOn_events opts
               then cy_on ''remove'' (selector opts) RemoveNode
                      (cy_on ''add'' (selector opts) RevaluateAndUpdateOnce s2)
               else cy_on ''add remove'' (selector opts) RevaluateAndUpdateOnce s2)
         else s1)"

text \<open>The \<open>remove\<close> handle of the result.\<close>

definition remove_handle :: "options \<Rightarrow> binding \<Rightarrow> binding" where
  "remove_handle opts s =
     (let s1 = (if updateOn_events opts
                then (let s' = nodes_off (nodes s) (updateOn opts) LayerUpdateOnRenderOnce s
                      in if allowPartialUpdate opts
                         then cy_off ''remove'' (selector opts) RemoveNode s' else s')
                else s);
          s2 = cy_off ''add remove'' (selector opts) RevaluateAndUpdateOnce s1
      in call CallbackRemoved s2)"

text \<open>
  The events the host delivers to the binding: an element matching the selector was added
  or removed, the host rendered a frame, or an element event of some other name (one of
  the \<open>updateOn\<close> events) happened on an element.
\<close>

datatype event = Add node_id | Remove node_id | Render | Other string node_id

definition host_change :: "event \<Rightarrow> binding \<Rightarrow> binding" where
  "host_change ev s =
     (case ev of
        Add n \<Rightarrow> s\<lparr>cy_nodes := removeAll n (cy_nodes s) @ [n]\<rparr>
      | Remove n \<Rightarrow> s\<lparr>cy_nodes := removeAll n (cy_nodes s)\<rparr>
      | _ \<Rightarrow> s)"

text \<open>
  The listeners an event reaches: those on the element first, then, as the event bubbles,
  those on the core. A frame is an event of the core and reaches no delegate.
\<close>

definition on_element :: "string \<Rightarrow> node_id \<Rightarrow> listener \<Rightarrow> bool" where
  "on_element name n l = (l_target l = El n \<and> l_event l = name)"

definition on_core :: "string \<Rightarrow> listener \<Rightarrow> bool" where
  "on_core name l = (l_target l = Cy \<and> l_event l = name)"

definition reached :: "event \<Rightarrow> listener list \<Rightarrow> listener list" where
  "reached ev ls =
     (case ev of
        Add n \<Rightarrow> filter (on_element ''add'' n) ls @ filter (on_core ''add'') ls
      | Remove n \<Rightarrow> filter (on_element ''remove'' n) ls @ filter (on_core ''remove'') ls
      | Render \<Rightarrow> filter (\<lambda>l. on_core ''render'' l \<and> l_selector l = None) ls
      | Other name n \<Rightarrow> filter (on_element name n) ls)"

definition event_target :: "event \<Rightarrow> node_id option" where
  "event_target ev = (case ev of Add n \<Rightarrow> Some n | Remove n \<Rightarrow> Some n | Render \<Rightarrow> None
                      | Other _ n \<Rightarrow> Some n)"

text \<open>One listener fires: a one-shot listener leaves the list first.\<close>

definition fire :: "options \<Rightarrow> event \<Rightarrow> listener \<Rightarrow> binding \<Rightarrow> binding" where
  "fire opts ev l s =
     (let s1 = (if l_once l then s\<lparr>listeners := remove1 l (listeners s)\<rparr> else s)
      in case l_handler l of
           RevaluateAndUpdateOnce \<Rightarrow> revaluateAndUpdateOnce s1
         | RemoveNode \<Rightarrow> (case event_target ev of None \<Rightarrow> s1 | Some n \<Rightarrow> removeNode n s1)
         | LayerUpdateOnRenderOnce \<Rightarrow> call UpdateOnRenderOnce s1
         | RenderOnce \<Rightarrow> render_once_callback opts s1)"

text \<open>
  \<open>emit\<close>: the listeners present when the event is emitted fire in order; one added
  while it is emitted waits for the next event.
\<close>

definition emit :: "options \<Rightarrow> event \<Rightarrow> binding \<Rightarrow> binding" where
  "emit opts ev s =
     (let s0 = host_change ev s
      in foldl (\<lambda>st l. fire opts ev l st) s0 (reached ev (listeners s0)))"

definition emit_all :: "options \<Rightarrow> event list \<Rightarrow> binding \<Rightarrow> binding" where
  "emit_all opts evs s = foldl (\<lambda>st ev. emit opts ev st) s evs"

text \<open>Counting in the trace.\<close>

definition reevaluations :: "binding \<Rightarrow> nat" where
  "reevaluations s = length (filter (\<lambda>e. case e of InitCollection _ \<Rightarrow> True | _ \<Rightarrow> False) (trace s))"

definition repaints :: "binding \<Rightarrow> nat" where
  "repaints s = length (filter (\<lambda>e. case e of Update _ _ \<Rightarrow> True | _ \<Rightarrow> False) (trace s))"

definition pending :: "binding \<Rightarrow> nat" where
  "pending s = length (filter (\<lambda>l. l = render_once_listener) (listeners s))"

text \<open>
  An event that invalidates the cached collection is one the binding has routed to
  \<open>revaluateAndUpdateOnce\<close>: every add, and every remove unless removals are patched in
  by \<open>removeNode\<close>.
\<close>

definition invalidating :: "options \<Rightarrow> event \<Rightarrow> bool" where
  "invalidating opts ev =
     (case ev of
        Add _ \<Rightarrow> True
      | Remove _ \<Rightarrow> \<not> (allowPartialUpdate opts \<and> updateOn_events opts)
      | _ \<Rightarrow> False)"

definition add_or_remove :: "event \<Rightarrow> bool" where
  "add_or_remove ev = (case ev of Add _ \<Rightarrow> True | Remove _ \<Rightarrow> True | _ \<Rightarrow> False)"

section \<open>The renderers\<close>

text \<open>
  Numbers are idealised as reals. A canvas transform is the matrix \<open>(a, b, c, d, e, f)\<close>
  of the 2D context; \<open>translate\<close> multiplies it by a translation from the right.
\<close>

type_synonym matrix = "real \<times> real \<times> real \<times> real \<times> real \<times> real"

record bbox =
  x1 :: real
  y1 :: real
  x2 :: real
  y2 :: real
  w :: real
  h :: real

record point =
  px :: real
  py :: real

record ctx2d =
  ctx_transform :: matrix

definition getTransform :: "'a ctx2d_scheme \<Rightarrow> matrix" where
  "getTransform ctx = ctx_transform ctx"

definition setTransform :: "matrix \<Rightarrow> 'a ctx2d_scheme \<Rightarrow> 'a ctx2d_scheme" where
  "setTransform t ctx = ctx\<lparr>ctx_transform := t\<rparr>"

definition translate_matrix :: "real \<Rightarrow> real \<Rightarrow> matrix \<Rightarrow> matrix" where
  "translate_matrix x y m =
     (case m of (a, b, c, d, e, f) \<Rightarrow> (a, b, c, d, e + a * x + c * y, f + b * x + d * y))"

definition translate :: "real \<Rightarrow> real \<Rightarrow> 'a ctx2d_scheme \<Rightarrow> 'a ctx2d_scheme" where
  "translate x y ctx = ctx\<lparr>ctx_transform := translate_matrix x y (ctx_transform ctx)\<rparr>"

text \<open>
  What a renderer asks of the host and of the layer about an element:
  \<open>node.removed()\<close>, \<open>node.boundingBox(o.boundingBox)\<close>, \<open>node.position()\<close> and
  \<open>layer.inVisibleBounds(bb)\<close>.
\<close>

record host =
  removed :: "node_id \<Rightarrow> bool"
  boundingBox :: "node_id \<Rightarrow> bbox"
  node_position :: "node_id \<Rightarrow> point"
  inVisibleBounds :: "bbox \<Rightarrow> bool"

record render_hint =
  forExport :: bool

text \<open>
  The body of the canvas renderer's \<open>forEach\<close>, for one element. The second component
  lists the calls of the caller's \<open>render\<close>: the element and the transform the call
  starts from.
\<close>

definition canvas_node ::
  "options \<Rightarrow> host \<Rightarrow> ('a ctx2d_scheme \<Rightarrow> node_id \<Rightarrow> bbox \<Rightarrow> 'a ctx2d_scheme) \<Rightarrow> render_hint \<Rightarrow>
   matrix \<Rightarrow> 'a ctx2d_scheme \<times> (node_id \<times> matrix) list \<Rightarrow> node_id \<Rightarrow>
   'a ctx2d_scheme \<times> (node_id \<times> matrix) list" where
  "canvas_node opts hst render hint t st n =
     (case st of (ctx, calls) \<Rightarrow>
        if removed hst n then (ctx, calls)
        else let bb = boundingBox hst n
             in if \<not> forExport hint \<and> checkBounds opts \<and> \<not> inVisibleBounds hst bb
                then (ctx, calls)
                else let ctx1 = (if position opts = TopLeft then translate (x1 bb) (y1 bb) ctx
                                 else if position opts = Center
                                 then (let pos = node_position hst n
                                       in translate (px pos) (py pos) ctx)
                                 else ctx);
                         ctx2 = render ctx1 n bb
                     in (if position opts \<noteq> PNone then setTransform t ctx2 else ctx2,
                         calls @ [(n, getTransform ctx1)]))"

definition canvas_loop ::
  "options \<Rightarrow> host \<Rightarrow> ('a ctx2d_scheme \<Rightarrow> node_id \<Rightarrow> bbox \<Rightarrow> 'a ctx2d_scheme) \<Rightarrow> render_hint \<Rightarrow>
   matrix \<Rightarrow> 'a ctx2d_scheme \<Rightarrow> node_id list \<Rightarrow> 'a ctx2d_scheme \<times> (node_id \<times> matrix) list" where
  "canvas_loop opts hst render hint t ctx ns =
     foldl (canvas_node opts hst render hint t) (ctx, []) ns"

text \<open>The canvas renderer: the transform is read once, before the elements.\<close>

definition canvas_renderer ::
  "options \<Rightarrow> host \<Rightarrow> ('a ctx2d_scheme \<Rightarrow> node_id \<Rightarrow> bbox \<Rightarrow> 'a ctx2d_scheme) \<Rightarrow>
   'a ctx2d_scheme \<Rightarrow> render_hint \<Rightarrow> binding \<Rightarrow>
   ('a ctx2d_scheme \<times> (node_id \<times> matrix) list) \<times> binding" where
  "canvas_renderer opts hst render ctx hint s =
     (let t = getTransform ctx;
          s1 = (if queryEachTime opts then reevaluate opts s else s)
      in (canvas_loop opts hst render hint t ctx (nodes s1), s1))"

text \<open>The elements a canvas pass hands to the caller's \<open>render\<close>.\<close>

definition participates :: "options \<Rightarrow> host \<Rightarrow> render_hint \<Rightarrow> node_id \<Rightarrow> bool" where
  "participates opts hst hint n =
     (\<not> removed hst n \<and>
      (forExport hint \<or> \<not> checkBounds opts \<or> inVisibleBounds hst (boundingBox hst n)))"

text \<open>
  HTML and SVG. \<open>baseOptions.isVisible\<close> is chosen once, from \<open>checkBounds\<close>; the DOM
  renderers take the root and an optional element and are handed no render hint.
\<close>

definition isVisible :: "options \<Rightarrow> host \<Rightarrow> bbox \<Rightarrow> bool" where
  "isVisible opts hst bb = (if checkBounds opts then inVisibleBounds hst bb else True)"

text \<open>The render target of one element: the style and the attribute the updates write.\<close>

record render_target =
  style_transform :: string
  attr_transform :: "string option"



text \<open>
  Modelled from the spec: \<open>matchNodes\<close> is not among the sources. Of its work the choice
  of the elements for which \<open>update\<close> is called is modelled, from two sentences: "a
  render target is never rendered for a removed host element", and "an element whose
  bounding box does not intersect the Surface's currently visible viewport region is
  skipped for rendering". So \<open>update\<close> is called for the elements of the collection
  that are not removed and whose box \<open>isVisible\<close> accepts.
\<close>

definition matchNodes_updated :: "options \<Rightarrow> host \<Rightarrow> node_id list \<Rightarrow> node_id list" where
  "matchNodes_updated opts hst ns =
     filter (\<lambda>n. \<not> removed hst n \<and> isVisible opts hst (boundingBox hst n)) ns"

text \<open>
  The DOM renderer of the HTML and SVG cases: which collection goes to \<open>matchNodes\<close>.
  \<open>hint_node\<close> is the optional second argument, the element of a partial update.
\<close>

definition dom_renderer :: "options \<Rightarrow> host \<Rightarrow> node_id option \<Rightarrow> binding \<Rightarrow> node_id list \<times> binding" where
  "dom_renderer opts hst hint_node s =
     (if queryEachTime opts
      then (let s1 = reevaluate opts s in (matchNodes_updated opts hst (nodes s1), s1))
      else case hint_node of
             Some n \<Rightarrow> (matchNodes_updated opts hst [n], s)
           | None \<Rightarrow> (matchNodes_updated opts hst (nodes s), s))"

text \<open>
  The elements whose render callback runs in one pass over a binding on a layer of the
  given type, the pass carrying the hint \<open>hint\<close>. Only the canvas renderer receives the
  hint.
\<close>

definition rendered_in_pass ::
  "layer_type \<Rightarrow> options \<Rightarrow> host \<Rightarrow> render_hint \<Rightarrow> binding \<Rightarrow> node_id list" where
  "rendered_in_pass ty opts hst hint s =
     (if ty = Canvas
      then map fst (snd (fst (canvas_renderer opts hst (\<lambda>ctx _ _. ctx)
                                 \<lparr>ctx_transform = (1, 0, 0, 1, 0, 0)\<rparr> hint s)))
      else fst (dom_renderer opts hst None s))"

text \<open>Examples: options, a host with three elements, and callbacks.\<close>

definition opts0 :: options where
  "opts0 = \<lparr>selector = '':visible'', updateOn = ''render'', queryEachTime = False,
            checkBounds = True, position = TopLeft, uniqueElements = False,
            allowPartialUpdate = False, transform = []\<rparr>"

definition box :: "real \<Rightarrow> real \<Rightarrow> real \<Rightarrow> real \<Rightarrow> bbox" where
  "box a b c d = \<lparr>x1 = a, y1 = b, x2 = c, y2 = d, w = c - a, h = d - b\<rparr>"

definition host0 :: host where
  "host0 = \<lparr>removed = (\<lambda>n. n = 3),
            boundingBox = (\<lambda>n. if n = 1 then box 0 10 20 30 else box 500 500 520 520),
            node_position = (\<lambda>n. if n = 1 then \<lparr>px = 10, py = 20\<rparr> else \<lparr>px = 510, py = 510\<rparr>),
            inVisibleBounds = (\<lambda>bb. x1 bb < 100 \<and> y1 bb < 100)\<rparr>"

definition identity_matrix :: matrix where
  "identity_matrix = (1, 0, 0, 1, 0, 0)"

definition ctx0 :: ctx2d where
  "ctx0 = \<lparr>ctx_transform = identity_matrix\<rparr>"

definition shifting_render :: "ctx2d \<Rightarrow> node_id \<Rightarrow> bbox \<Rightarrow> ctx2d" where
  "shifting_render ctx n bb = translate 1 0 ctx"

definition binding0 :: binding where
  "binding0 = (fresh_binding [1, 2, 3])\<lparr>nodes := [1, 2, 3]\<rparr>"



section \<open>Invariants of the binding\<close>

text \<open>The listeners the binding registers on the core.\<close>

definition revaluate_listener :: "options \<Rightarrow> string \<Rightarrow> listener" where
  "revaluate_listener opts ev =
     \<lparr>l_target = Cy, l_event = ev, l_selector = Some (selector opts),
      l_handler = RevaluateAndUpdateOnce, l_once = False\<rparr>"

definition remove_node_listener :: "options \<Rightarrow> listener" where
  "remove_node_listener opts =
     \<lparr>l_target = Cy, l_event = ''remove'', l_selector = Some (selector opts),
      l_handler = RemoveNode, l_once = False\<rparr>"

text \<open>
  Every listener of the binding has one of these shapes: the one-shot callback on
  \<open>render\<close>, the \<open>updateOn\<close> listener on an element, or one of the three delegates.
\<close>

definition listener_shape :: "options \<Rightarrow> listener \<Rightarrow> bool" where
  "listener_shape opts l =
     (if l_once l then l = render_once_listener
      else case l_target l of
             El n \<Rightarrow> l_handler l = LayerUpdateOnRenderOnce
           | Cy \<Rightarrow> l = revaluate_listener opts ''add'' \<or> l = revaluate_listener opts ''remove'' \<or>
                   l = remove_node_listener opts)"

text \<open>The flag says whether the one-shot callback is registered, and it is so once.\<close>

definition binding_inv :: "options \<Rightarrow> binding \<Rightarrow> bool" where
  "binding_inv opts s \<longleftrightarrow>
     list_all (listener_shape opts) (listeners s) \<and>
     pending s = (if updateOnRenderOnceEnabled s then 1 else 0)"

text \<open>The delegates that the set-up of cached mode leaves registered.\<close>

definition routed :: "options \<Rightarrow> binding \<Rightarrow> bool" where
  "routed opts s \<longleftrightarrow>
     revaluate_listener opts ''add'' \<in> set (listeners s) \<and>
     (allowPartialUpdate opts \<and> updateOn_events opts \<or>
      revaluate_listener opts ''remove'' \<in> set (listeners s)) \<and>
     (\<not> allowPartialUpdate opts \<or> remove_node_listener opts \<in> set (listeners s))"

definition good :: "options \<Rightarrow> binding \<Rightarrow> bool" where
  "good opts s \<longleftrightarrow> binding_inv opts s \<and> (\<not> queryEachTime opts \<longrightarrow> routed opts s)"

text \<open>The state of a binding after its set-up and a history of events.\<close>

definition reachable :: "options \<Rightarrow> node_id list \<Rightarrow> event list \<Rightarrow> binding" where
  "reachable opts host history = emit_all opts history (renderPerNode opts (fresh_binding host))"

text \<open>A listener other than the one-shot callback.\<close>

definition quiet :: "listener \<Rightarrow> bool" where
  "quiet l = (\<not> l_once l \<and> l_handler l \<noteq> RenderOnce)"

definition opts_partial :: options where
  "opts_partial = opts0\<lparr>allowPartialUpdate := True\<rparr>"

definition burst0 :: "event list" where
  "burst0 = [Add 4, Remove 1, Add 5]"


section \<open>Proofs about the layer stack\<close>

subsection \<open>Well-formed documents and the insertion step\<close>

lemma wf_domD1: "wf_dom d \<Longrightarrow> e \<in> set (children d p) \<longleftrightarrow> parentElement d e = Some p"
  by (simp add: wf_dom_def)

lemma wf_domD2: "wf_dom d \<Longrightarrow> parentElement d e = Some p \<Longrightarrow> e < next_elem d \<and> p < next_elem d"
  by (simp add: wf_dom_def)

lemma wf_domD3: "wf_dom d \<Longrightarrow> next_elem d \<le> e \<Longrightarrow> cy_layer d e = None"
  by (simp add: wf_dom_def)

lemma wf_dom_fresh_parent: "wf_dom d \<Longrightarrow> next_elem d \<le> e \<Longrightarrow> parentElement d e = None"
  by (metis wf_domD2 not_le option.exhaust)

lemma wf_dom_fresh_children:
  assumes w: "wf_dom d" and f: "next_elem d \<le> e"
  shows "children d e = []"
proof (rule ccontr)
  assume "children d e \<noteq> []"
  then obtain c where "c \<in> set (children d e)" by (cases "children d e") auto
  with w have "parentElement d c = Some e" by (simp add: wf_domD1)
  with w have "e < next_elem d" using wf_domD2 by blast
  with f show False by simp
qed

lemma wf_dom_child_lt: "wf_dom d \<Longrightarrow> c \<in> set (children d p) \<Longrightarrow> c < next_elem d"
  using wf_domD1 wf_domD2 by blast

lemma known_layer_lt: "wf_dom d \<Longrightarrow> cy_layer d e = Some l \<Longrightarrow> e < next_elem d"
  by (metis wf_domD3 not_le option.distinct(1))

lemma wf_detach: "wf_dom d \<Longrightarrow> wf_dom (detach d e)"
  unfolding wf_dom_def detach_def
  by (auto split: option.splits)

lemma detach_next: "next_elem (detach d e) = next_elem d"
  by (simp add: detach_def split: option.splits)

lemma detach_cy_layer: "cy_layer (detach d e) = cy_layer d"
  by (simp add: detach_def split: option.splits)

lemma detach_children: "wf_dom d \<Longrightarrow> children (detach d e) p = removeAll e (children d p)"
  by (auto simp: detach_def wf_dom_def split: option.splits)

lemma detach_parent: "parentElement (detach d e) = (parentElement d)(e := None)"
  by (auto simp: detach_def split: option.splits)

lemma place_next: "next_elem (place d p e f) = next_elem d"
  by (simp add: place_def Let_def detach_next)

lemma place_cy_layer: "cy_layer (place d p e f) = cy_layer d"
  by (simp add: place_def Let_def detach_cy_layer)

lemma place_parent: "parentElement (place d p e f) = (parentElement d)(e := Some p)"
  by (simp add: place_def Let_def detach_parent)

lemma place_children:
  "wf_dom d \<Longrightarrow> children (place d p e f) q =
     (if q = p then f (removeAll e (children d p)) else removeAll e (children d q))"
  by (simp add: place_def Let_def detach_children)

lemma wf_place:
  assumes w: "wf_dom d" and e: "e < next_elem d" and p: "p < next_elem d"
    and f: "\<And>cs. set (f cs) = Set.insert e (set cs)"
  shows "wf_dom (place d p e f)"
  unfolding wf_dom_def
proof (intro conjI allI impI)
  fix q x
  show "(x \<in> set (children (place d p e f) q)) = (parentElement (place d p e f) x = Some q)"
    using wf_domD1 [OF w, of x q] by (auto simp: place_children [OF w] place_parent f)
next
  fix x q
  assume "parentElement (place d p e f) x = Some q"
  then show "x < next_elem (place d p e f)" and "q < next_elem (place d p e f)"
    using e p wf_domD2 [OF w, of x q] by (auto simp: place_parent place_next split: if_splits)
next
  fix x
  assume "next_elem (place d p e f) \<le> x"
  then show "cy_layer (place d p e f) x = None"
    using wf_domD3 [OF w, of x] by (simp add: place_next place_cy_layer)
qed

lemma set_split_at: "set (takeWhile P xs @ e # dropWhile P xs) = Set.insert e (set xs)"
proof -
  have "set (takeWhile P xs) \<union> set (dropWhile P xs) = set xs"
    by (metis set_append takeWhile_dropWhile_id)
  then show ?thesis by auto
qed

lemma list_all_backrefs_map:
  "list_all (\<lambda>c. case cy c of None \<Rightarrow> False | Some l \<Rightarrow> root_el l = c) cs \<Longrightarrow>
   map root_el (List.map_filter cy cs) = cs"
  by (induction cs) (auto simp: List.map_filter_simps split: option.splits)

lemma stack_inv_layers:
  assumes "stack_inv p d r"
  shows "map_sum id (map root_el) (getLayers p d) = Inr (children d r)"
  using assms
  by (simp add: stack_inv_def getLayers_def plugin_layers_def backrefs_ok_def list_all_backrefs_map)

text \<open>Placing a known layer's root anywhere keeps the stack invariant.\<close>

lemma stack_inv_place:
  assumes inv: "stack_inv p d r"
    and k: "cy_layer d e = Some l" "root_el l = e"
    and q: "q < next_elem d"
    and f: "\<And>cs. set (f cs) = Set.insert e (set cs)"
    and nl: "q = r \<or> node (nodeLayer p) \<noteq> e"
  shows "stack_inv p (place d q e f) r"
proof -
  from inv have w: "wf_dom d" and pr: "parentElement d (node (nodeLayer p)) = Some r"
    and br: "backrefs_ok d r"
    by (simp_all add: stack_inv_def plugin_root_def)
  have e: "e < next_elem d" using known_layer_lt [OF w k(1)] .
  have w': "wf_dom (place d q e f)" by (rule wf_place [OF w e q f])
  have pr': "plugin_root p (place d q e f) = Some r"
    using pr nl by (auto simp: plugin_root_def place_parent)
  have sub: "set (children (place d q e f) r) \<subseteq> Set.insert e (set (children d r))"
    by (auto simp: place_children [OF w] f)
  have "backrefs_ok (place d q e f) r"
    using br sub k unfolding backrefs_ok_def list_all_iff place_cy_layer
    by (auto split: option.splits)
  with w' pr' show ?thesis by (simp add: stack_inv_def)
qed

lemma stack_inv_root_lt: "stack_inv p d r \<Longrightarrow> r < next_elem d"
  unfolding stack_inv_def plugin_root_def using wf_domD2 by blast

lemma stack_inv_move:
  assumes inv: "stack_inv p d r" and k: "known_layer d l" and m: "move p d l offset = Inr d'"
  shows "stack_inv p d' r"
proof -
  have k': "cy_layer d (root_el l) = Some l" using k by (simp add: known_layer_def)
  have r: "r < next_elem d" by (rule stack_inv_root_lt [OF inv])
  have pr: "plugin_root p d = Some r" using inv by (simp add: stack_inv_def)
  have a: "stack_inv p (place d r (root_el l) (\<lambda>cs. cs @ [root_el l])) r"
    by (rule stack_inv_place [OF inv k' refl r]) auto
  have b: "\<And>ref. stack_inv p (place d r (root_el l)
       (\<lambda>cs. takeWhile (\<lambda>c. c \<noteq> ref) cs @ root_el l # dropWhile (\<lambda>c. c \<noteq> ref) cs)) r"
    by (rule stack_inv_place [OF inv k' refl r]) (simp_all only: set_split_at simp_thms)
  show ?thesis
    using m pr inv a b
    by (auto simp: move_def plugin_layers_def Let_def appendChild_def insertBefore_def
        split: if_splits)
qed


lemma wf_alloc:
  assumes w: "wf_dom d" and n: "next_elem d \<le> n" and cy: "\<And>e. n \<le> e \<Longrightarrow> cy e = None"
  shows "wf_dom (d\<lparr>next_elem := n, cy_layer := cy\<rparr>)"
  unfolding wf_dom_def
proof (intro conjI allI impI)
  fix p e show "(e \<in> set (children (d\<lparr>next_elem := n, cy_layer := cy\<rparr>) p)) =
        (parentElement (d\<lparr>next_elem := n, cy_layer := cy\<rparr>) e = Some p)"
    using wf_domD1 [OF w] by simp
next
  fix e p assume "parentElement (d\<lparr>next_elem := n, cy_layer := cy\<rparr>) e = Some p"
  then show "e < next_elem (d\<lparr>next_elem := n, cy_layer := cy\<rparr>)"
    "p < next_elem (d\<lparr>next_elem := n, cy_layer := cy\<rparr>)"
    using wf_domD2 [OF w, of e p] n by auto
next
  fix e assume "next_elem (d\<lparr>next_elem := n, cy_layer := cy\<rparr>) \<le> e"
  then show "cy_layer (d\<lparr>next_elem := n, cy_layer := cy\<rparr>) e = None"
    using cy by simp
qed

lemma new_canvas_layer_eq:
  "new_canvas_layer d =
     (\<lparr>ltype = Canvas, root_el = next_elem d, node = next_elem d\<rparr>,
      d\<lparr>next_elem := Suc (next_elem d),
        cy_layer := (cy_layer d)(next_elem d \<mapsto>
           \<lparr>ltype = Canvas, root_el = next_elem d, node = next_elem d\<rparr>)\<rparr>)"
  by (simp add: new_canvas_layer_def createElement_def Let_def)

lemma new_dom_layer_eq:
  "new_dom_layer ty d =
     (\<lparr>ltype = ty, root_el = next_elem d, node = Suc (next_elem d)\<rparr>,
      (d\<lparr>next_elem := Suc (Suc (next_elem d)),
         cy_layer := (cy_layer d)
           (next_elem d \<mapsto> \<lparr>ltype = ty, root_el = next_elem d, node = Suc (next_elem d)\<rparr>,
            Suc (next_elem d) \<mapsto> \<lparr>ltype = ty, root_el = next_elem d, node = Suc (next_elem d)\<rparr>)\<rparr>)
       \<lparr>children := (children d)(next_elem d := children d (next_elem d) @ [Suc (next_elem d)]),
        parentElement := (parentElement d)(Suc (next_elem d) \<mapsto> next_elem d)\<rparr>)"
  by (simp add: new_dom_layer_def createElement_def Let_def)

lemma wf_new_canvas_layer: "wf_dom d \<Longrightarrow> wf_dom (snd (new_canvas_layer d))"
  unfolding new_canvas_layer_eq snd_conv
  by (rule wf_alloc) (auto simp: wf_domD3)

lemma wf_new_dom_layer:
  assumes w: "wf_dom d" shows "wf_dom (snd (new_dom_layer ty d))"
proof -
  let ?this = "\<lparr>ltype = ty, root_el = next_elem d, node = Suc (next_elem d)\<rparr>"
  let ?d1 = "d\<lparr>next_elem := Suc (Suc (next_elem d)),
         cy_layer := (cy_layer d)(next_elem d \<mapsto> ?this, Suc (next_elem d) \<mapsto> ?this)\<rparr>"
  have w1: "wf_dom ?d1"
    by (rule wf_alloc) (use w in \<open>auto simp: wf_domD3\<close>)
  have np: "parentElement d (Suc (next_elem d)) = None"
    by (rule wf_dom_fresh_parent [OF w]) simp
  have "snd (new_dom_layer ty d) =
        place ?d1 (next_elem d) (Suc (next_elem d)) (\<lambda>cs. cs @ [Suc (next_elem d)])"
    using np by (simp add: new_dom_layer_eq place_def detach_def)
  moreover have "wf_dom (place ?d1 (next_elem d) (Suc (next_elem d)) (\<lambda>cs. cs @ [Suc (next_elem d)]))"
    by (rule wf_place [OF w1]) auto
  ultimately show ?thesis by simp
qed

lemma createLayer_props:
  assumes w: "wf_dom d" and c: "createLayer k d = (l, d1)"
  shows "wf_dom d1"
    and "root_el l = next_elem d"
    and "next_elem d < next_elem d1"
    and "cy_layer d1 (root_el l) = Some l"
    and "parentElement d1 (root_el l) = None"
    and "\<And>e. e < next_elem d \<Longrightarrow> cy_layer d1 e = cy_layer d e"
    and "\<And>e. e < next_elem d \<Longrightarrow> children d1 e = children d e"
    and "\<And>e. e < next_elem d \<Longrightarrow> parentElement d1 e = parentElement d e"
proof -
  have "d1 = snd (createLayer k d)" using c by simp
  then show "wf_dom d1"
    using w by (cases k) (simp_all add: createLayer_def wf_new_dom_layer wf_new_canvas_layer)
  show "root_el l = next_elem d" "next_elem d < next_elem d1"
    "cy_layer d1 (root_el l) = Some l"
    using c by (cases k; auto simp: createLayer_def new_dom_layer_eq new_canvas_layer_eq)+
  show "parentElement d1 (root_el l) = None"
    using c wf_dom_fresh_parent [OF w, of "next_elem d"]
    by (cases k; auto simp: createLayer_def new_dom_layer_eq new_canvas_layer_eq)
  fix e assume "e < next_elem d"
  then show "cy_layer d1 e = cy_layer d e" "children d1 e = children d e" "parentElement d1 e = parentElement d e"
    using c by (cases k; auto simp: createLayer_def new_dom_layer_eq new_canvas_layer_eq)+
qed

lemma stack_inv_createLayer:
  assumes inv: "stack_inv p d r" and c: "createLayer k d = (l, d1)"
  shows "stack_inv p d1 r"
proof -
  from inv have w: "wf_dom d" and pr: "parentElement d (node (nodeLayer p)) = Some r"
    and br: "backrefs_ok d r"
    by (simp_all add: stack_inv_def plugin_root_def)
  note cl = createLayer_props [OF w c]
  have n: "node (nodeLayer p) < next_elem d" using wf_domD2 [OF w pr] by simp
  have r: "r < next_elem d" using wf_domD2 [OF w pr] by simp
  have "plugin_root p d1 = Some r" using pr cl(8) [OF n] by (simp add: plugin_root_def)
  moreover have "backrefs_ok d1 r"
    using br cl(6) cl(7) [OF r] wf_dom_child_lt [OF w]
    by (auto simp: backrefs_ok_def list_all_iff)
  ultimately show ?thesis using cl(1) by (simp add: stack_inv_def)
qed

lemma stack_inv_append:
  assumes inv: "stack_inv p d r" and a: "append p d k = Inr (d', l)"
  shows "stack_inv p d' r"
proof -
  obtain l1 d1 where c: "createLayer k d = (l1, d1)" by (cases "createLayer k d")
  have w: "wf_dom d" using inv by (simp add: stack_inv_def)
  note cl = createLayer_props [OF w c]
  have inv1: "stack_inv p d1 r" by (rule stack_inv_createLayer [OF inv c])
  have r: "r < next_elem d1" by (rule stack_inv_root_lt [OF inv1])
  have "stack_inv p (place d1 r (root_el l1) (\<lambda>cs. cs @ [root_el l1])) r"
    by (rule stack_inv_place [OF inv1 cl(4) refl r]) auto
  then show ?thesis
    using a c inv1 by (auto simp: append_def appendChild_def stack_inv_def split: if_splits)
qed

lemma stack_inv_insert:
  assumes inv: "stack_inv p d r" and a: "insert p d wh ref k = Inr (d', l)"
  shows "stack_inv p d' r"
proof -
  obtain l1 d1 where c: "createLayer k d = (l1, d1)" by (cases "createLayer k d")
  have w: "wf_dom d" and pr: "parentElement d (node (nodeLayer p)) = Some r"
    using inv by (simp_all add: stack_inv_def plugin_root_def)
  note cl = createLayer_props [OF w c]
  have inv1: "stack_inv p d1 r" by (rule stack_inv_createLayer [OF inv c])
  have nl: "node (nodeLayer p) \<noteq> root_el l1"
    using wf_domD2 [OF w pr] cl(2) by simp
  have pl: "stack_inv p (place d1 q (root_el l1) f) r"
    if "parentElement d1 x = Some q" "\<And>cs. set (f cs) = Set.insert (root_el l1) (set cs)"
    for q x f
    by (rule stack_inv_place [OF inv1 cl(4) refl _ that(2)])
       (use wf_domD2 [OF cl(1) that(1)] nl in auto)
  have ia: "insertAdjacentElement d1 (root_el ref) wh (root_el l1) = Inr d'"
    using a c by (auto simp: insert_def split: sum.splits)
  show ?thesis
  proof (cases "parentElement d1 (root_el ref)")
    case None
    then show ?thesis using ia inv1 by (simp add: insertAdjacentElement_def)
  next
    case (Some q)
    have 1: "stack_inv p (place d1 q (root_el l1) (\<lambda>cs. cs @ [root_el l1])) r"
      by (rule pl [OF Some]) auto
    have 2: "\<And>y. stack_inv p (place d1 q (root_el l1)
        (\<lambda>cs. takeWhile (\<lambda>c. c \<noteq> y) cs @ root_el l1 # dropWhile (\<lambda>c. c \<noteq> y) cs)) r"
      by (rule pl [OF Some]) (simp only: set_split_at)
    show ?thesis
      using ia Some inv1 1 2
      by (auto simp: insertAdjacentElement_def appendChild_def insertBefore_def
          split: where_pos.splits list.splits if_splits)
  qed
qed

lemma stack_inv_apply_op:
  assumes inv: "stack_inv p d r" and k: "case c of Move l _ \<Rightarrow> known_layer d l | _ \<Rightarrow> True"
    and a: "apply_op p d c = Inr d'"
  shows "stack_inv p d' r"
proof (cases c)
  case (Append k)
  then show ?thesis using a stack_inv_append [OF inv]
    by (auto simp: apply_op_def split: sum.splits)
next
  case (Insert wh ref k)
  then show ?thesis using a stack_inv_insert [OF inv]
    by (auto simp: apply_op_def split: sum.splits)
next
  case (Move l offset)
  then show ?thesis using a k stack_inv_move [OF inv]
    by (auto simp: apply_op_def)
qed

lemma stack_inv_run:
  "stack_inv p d r \<Longrightarrow> ops_known p d cs \<Longrightarrow> run p d cs = Inr d' \<Longrightarrow> stack_inv p d' r"
proof (induction cs arbitrary: d)
  case Nil
  then show ?case by simp
next
  case (Cons c cs)
  from Cons.prems(3) obtain d1 where a: "apply_op p d c = Inr d1" and r: "run p d1 cs = Inr d'"
    by (auto split: sum.splits)
  have "stack_inv p d1 r"
    by (rule stack_inv_apply_op [OF Cons.prems(1) _ a]) (use Cons.prems(2) in simp)
  moreover have "ops_known p d1 cs" using Cons.prems(2) a by simp
  ultimately show ?case using Cons.IH r by blast
qed

lemma not_is_ancestor_fresh:
  assumes cl: "\<And>x q. x < n \<Longrightarrow> par x = Some q \<Longrightarrow> q < n" and x: "x < n" and e: "n \<le> e"
  shows "\<not> is_ancestor par k e x"
  using x
proof (induction k arbitrary: x)
  case 0
  then show ?case using e by auto
next
  case (Suc k)
  then show ?case using e cl by (auto split: option.splits)
qed

lemma getLayers_cong:
  assumes "plugin_root p d' = plugin_root p d"
    and "\<And>r. plugin_root p d = Some r \<Longrightarrow> children d' r = children d r"
    and "\<And>r c. plugin_root p d = Some r \<Longrightarrow> c \<in> set (children d r) \<Longrightarrow> cy_layer d' c = cy_layer d c"
  shows "getLayers p d' = getLayers p d"
proof (cases "plugin_root p d")
  case None
  then show ?thesis using assms(1) by (simp add: getLayers_def plugin_layers_def)
next
  case (Some r)
  have "List.map_filter (cy_layer d') (children d r) = List.map_filter (cy_layer d) (children d r)"
    unfolding List.map_filter_def using assms(3) [OF Some]
    by (intro arg_cong2 [where f = map] filter_cong map_cong refl) auto
  then show ?thesis using Some assms(1) assms(2) [OF Some]
    by (simp add: getLayers_def plugin_layers_def)
qed


subsection \<open>The example document\<close>

lemma wf_dom0: "wf_dom dom0"
  unfolding wf_dom_def
proof (intro conjI allI impI)
  fix p e show "(e \<in> set (children dom0 p)) = (parentElement dom0 e = Some p)"
    by (simp add: dom0_def)
next
  fix e p assume "parentElement dom0 e = Some p"
  then show "e < next_elem dom0" "p < next_elem dom0"
    by (simp_all add: dom0_def split: if_splits)
next
  fix e assume "next_elem dom0 \<le> e"
  then show "cy_layer dom0 e = None" by (simp add: dom0_def)
qed

lemma stack_inv0: "stack_inv plugin0 dom0 1"
  using wf_dom0
  by (simp add: stack_inv_def plugin_root_def plugin0_def backrefs_ok_def dom0_def cyl_def)

lemma run_ops0: "map_sum id (\<lambda>d. children d 1) (run plugin0 dom0 ops0) = Inr [3, 2, 8, 4, 10]"
  by code_simp

lemma ops_known0: "ops_known plugin0 dom0 ops0"
  by code_simp


subsection \<open>The order of the stack\<close>

text \<open>
  C3. After every sequence of \<open>append\<close>, \<open>insert\<close> and \<open>move\<close> that the stack has
  carried out, starting from a stack whose children all carry their back-reference,
  \<open>getLayers\<close> is read from the container's children as they are now, and the roots of
  the layers it returns are exactly the children of the container, in their order.
\<close>

theorem enumeration_equals_child_order:
  assumes "stack_inv p d r" and "ops_known p d cs" and "run p d cs = Inr d'"
  shows "plugin_root p d' = Some r \<and>
         getLayers p d' = Inr (List.map_filter (cy_layer d') (children d' r)) \<and>
         map_sum id (map root_el) (getLayers p d') = Inr (children d' r)"
proof -
  have inv: "stack_inv p d' r" by (rule stack_inv_run [OF assms])
  then have "plugin_root p d' = Some r" by (simp add: stack_inv_def)
  then show ?thesis using stack_inv_layers [OF inv]
    by (simp add: getLayers_def plugin_layers_def)
qed

theorem enumeration_equals_child_order_witness:
  "stack_inv plugin0 dom0 1 \<and> ops_known plugin0 dom0 ops0 \<and>
   (\<exists>d'. run plugin0 dom0 ops0 = Inr d' \<and> children d' 1 = [3, 2, 8, 4, 10] \<and>
      map_sum id (map root_el) (getLayers plugin0 d') = Inr [3, 2, 8, 4, 10])"
proof -
  obtain d' where r: "run plugin0 dom0 ops0 = Inr d'" and c: "children d' 1 = [3, 2, 8, 4, 10]"
    using run_ops0 by (cases "run plugin0 dom0 ops0") auto
  from enumeration_equals_child_order [OF stack_inv0 ops_known0 r] c stack_inv0 ops_known0 r
  show ?thesis by auto
qed


subsection \<open>\<open>move\<close>\<close>

lemma move_target_le_0: "move_target index offset len \<le> 0"
  by (simp add: move_target_def)

text \<open>
  C1. The stack holds the select-box, drag and node layers, in this order. Moving the
  first one by \<open>+1\<close> should bring it to position \<open>1\<close>; the target that \<open>move\<close>
  computes is \<open>0\<close>, the index the layer already has, and the order stays as it was.
\<close>

theorem move_by_one_leaves_order:
  "getLayers plugin0 dom0 = Inr [cyl CySelectBox 2, cyl CyDrag 3, cyl CyNode 4] \<and>
   indexOf [cyl CySelectBox 2, cyl CyDrag 3, cyl CyNode 4] (cyl CySelectBox 2) = 0 \<and>
   clamped_position 0 1 3 = 1 \<and>
   move_target 0 1 3 = 0 \<and>
   (case move plugin0 dom0 (cyl CySelectBox 2) 1 of Inl e \<Rightarrow> Inl e | Inr d \<Rightarrow> getLayers plugin0 d)
     = Inr [cyl CySelectBox 2, cyl CyDrag 3, cyl CyNode 4]"
  by (simp add: getLayers_def move_def plugin_layers_def plugin_root_def plugin0_def dom0_def
      cyl_def List.map_filter_simps move_target_def clamped_position_def)


text \<open>
  An offset that takes the sum below zero: the target is negative, \<open>l[target]\<close> is
  undefined, and \<open>move\<close> throws before it touches the document.
\<close>

lemma move_below_zero_throws:
  "move_target 1 (- 5) 3 = - 4 \<and>
   (case move plugin0 dom0 (cyl CyDrag 3) (- 5) of Inl e \<Rightarrow> e = TypeError | Inr _ \<Rightarrow> False)"
  by (simp add: move_def plugin_layers_def plugin_root_def plugin0_def dom0_def
      cyl_def List.map_filter_simps move_target_def)


subsection \<open>\<open>insert\<close> next to a layer of another stack\<close>

lemma split_at_first:
  "x \<in> set xs \<Longrightarrow>
   dropWhile (\<lambda>c. c \<noteq> x) xs = x # tl (dropWhile (\<lambda>c. c \<noteq> x) xs) \<and>
   xs = takeWhile (\<lambda>c. c \<noteq> x) xs @ x # tl (dropWhile (\<lambda>c. c \<noteq> x) xs)"
  by (induction xs) auto

lemma split_before_next:
  assumes "distinct (pre @ x # y # rest)"
  shows "takeWhile (\<lambda>c. c \<noteq> y) (pre @ x # y # rest) = pre @ [x]"
    and "dropWhile (\<lambda>c. c \<noteq> y) (pre @ x # y # rest) = y # rest"
proof -
  have a: "\<And>c. c \<in> set pre \<Longrightarrow> c \<noteq> y" and b: "x \<noteq> y" using assms by auto
  show "takeWhile (\<lambda>c. c \<noteq> y) (pre @ x # y # rest) = pre @ [x]"
    using a b by (simp add: takeWhile_append2)
  show "dropWhile (\<lambda>c. c \<noteq> y) (pre @ x # y # rest) = y # rest"
    using a b by (simp add: dropWhile_append2)
qed


text \<open>
  C5, as the claim states it, fails: the reference layer \<open>7\<close> belongs to the other
  container, and \<open>insert\<close> returns a new layer, placed before \<open>7\<close> in that container.
\<close>

theorem insert_foreign_reference_counterexample:
  "plugin_root plugin0 dom0 = Some 1 \<and> root_el (cyl CyNode 7) \<notin> set (children dom0 1) \<and>
   \<not> isl (insert plugin0 dom0 Before (cyl CyNode 7) KHtml) \<and>
   map_sum id (\<lambda>(d, l). (children d 1, children d 6, root_el l))
     (insert plugin0 dom0 Before (cyl CyNode 7) KHtml) = Inr ([2, 3, 4], [8, 7], 8)"
  by code_simp

text \<open>
  C5, amended. When the root of the reference layer exists but is not a child of the
  stack's container, \<open>insert\<close> does not fail. It returns a new layer. When the
  reference's root has a parent (whose child list, as in every document, has no element
  twice), the new root becomes a child of that parent, immediately before the reference's
  root for \<open>before\<close> and immediately after it for \<open>after\<close>, the other children keeping
  their order; when the reference is detached the new root stays without parent. The
  children of the stack's container and the stack's enumeration are what they were.
\<close>

theorem insert_foreign_reference:
  assumes inv: "stack_inv p d r"
    and ex: "root_el ref < next_elem d"
    and nin: "root_el ref \<notin> set (children d r)"
    and dist: "\<forall>q. parentElement d (root_el ref) = Some q \<longrightarrow> distinct (children d q)"
  shows "\<exists>d' l. insert p d wh ref k = Inr (d', l) \<and> root_el l = next_elem d \<and>
           parentElement d' (root_el l) = parentElement d (root_el ref) \<and>
           (\<forall>q. parentElement d (root_el ref) = Some q \<longrightarrow>
              (\<exists>pre post. children d q = pre @ root_el ref # post \<and>
                 children d' q =
                   (case wh of
                      Before \<Rightarrow> pre @ root_el l # root_el ref # post
                    | After \<Rightarrow> pre @ root_el ref # root_el l # post))) \<and>
           children d' r = children d r \<and> getLayers p d' = getLayers p d"
proof -
  obtain l d1 where c: "createLayer k d = (l, d1)" by (cases "createLayer k d")
  have w: "wf_dom d" and pr: "plugin_root p d = Some r"
    using inv by (simp_all add: stack_inv_def)
  note cl = createLayer_props [OF w c]
  let ?e = "root_el l"
  let ?rr = "root_el ref"
  have r: "r < next_elem d" by (rule stack_inv_root_lt [OF inv])
  have pr1: "plugin_root p d1 = plugin_root p d"
    using pr cl(8) wf_domD2 [OF w] by (auto simp: plugin_root_def)
  have ch1: "children d1 r = children d r" by (rule cl(7) [OF r])
  have cy1: "\<And>c. c \<in> set (children d r) \<Longrightarrow> cy_layer d1 c = cy_layer d c"
    using cl(6) wf_dom_child_lt [OF w] by blast
  have gl1: "getLayers p d1 = getLayers p d"
    by (rule getLayers_cong) (use pr pr1 ch1 cy1 in auto)
  have pref: "parentElement d1 ?rr = parentElement d ?rr"
    by (rule cl(8) [OF ex])
  show ?thesis
  proof (cases "parentElement d ?rr")
    case None
    then have "insert p d wh ref k = Inr (d1, l)"
      using c pref by (simp add: insert_def insertAdjacentElement_def)
    then show ?thesis using cl(2,5) None ch1 gl1 by simp
  next
    case (Some q)
    let ?cs = "children d q"
    let ?pre = "takeWhile (\<lambda>c. c \<noteq> ?rr) ?cs"
    let ?post = "tl (dropWhile (\<lambda>c. c \<noteq> ?rr) ?cs)"
    have q: "q < next_elem d" using wf_domD2 [OF w Some] by simp
    have qr: "q \<noteq> r" using nin Some wf_domD1 [OF w] by blast
    have rin: "?rr \<in> set ?cs" using Some wf_domD1 [OF w] by simp
    have dq: "distinct ?cs" using dist Some by simp
    have chq: "children d1 q = ?cs" by (rule cl(7) [OF q])
    note sp = split_at_first [OF rin]
    have cs: "?cs = ?pre @ ?rr # ?post" using sp by simp
    have na: "\<not> is_ancestor (parentElement d1) (next_elem d1) ?e q"
    proof (rule not_is_ancestor_fresh [where n = "next_elem d"])
      fix x y assume "x < next_elem d" "parentElement d1 x = Some y"
      then show "y < next_elem d" using cl(8) wf_domD2 [OF w] by metis
    qed (use q cl(2) in auto)
    have e_notin: "\<And>y. ?e \<notin> set (children d1 y)"
      using wf_domD1 [OF cl(1)] cl(5) by simp
    have pl: "children (place d1 q ?e f) r = children d r \<and>
              parentElement (place d1 q ?e f) ?e = Some q \<and>
              children (place d1 q ?e f) q = f ?cs \<and>
              getLayers p (place d1 q ?e f) = getLayers p d" for f
    proof -
      have a: "children (place d1 q ?e f) r = children d r"
        using qr e_notin [of r] ch1 by (simp add: place_children [OF cl(1)] removeAll_id)
      have a': "children (place d1 q ?e f) q = f ?cs"
        using e_notin [of q] chq by (simp add: place_children [OF cl(1)] removeAll_id)
      have b: "plugin_root p (place d1 q ?e f) = plugin_root p d"
        using pr pr1 cl(5) by (auto simp: plugin_root_def place_parent)
      have "getLayers p (place d1 q ?e f) = getLayers p d"
        by (rule getLayers_cong) (use pr a b cy1 in \<open>auto simp: place_cy_layer\<close>)
      then show ?thesis using a a' by (simp add: place_parent)
    qed
    have ne: "?e \<noteq> ?rr" using ex cl(2) by simp
    have fin: ?thesis
      if i: "insert p d wh ref k = Inr (place d1 q ?e f, l)"
        and f: "f ?cs = (case wh of Before \<Rightarrow> ?pre @ ?e # ?rr # ?post
                                   | After \<Rightarrow> ?pre @ ?rr # ?e # ?post)"
      for f
    proof -
      have "\<exists>pre post. children d q = pre @ ?rr # post \<and>
               children (place d1 q ?e f) q =
                 (case wh of Before \<Rightarrow> pre @ ?e # ?rr # post | After \<Rightarrow> pre @ ?rr # ?e # post)"
        using cs f pl [of f] by (intro exI [of _ ?pre] exI [of _ ?post]) simp
      then show ?thesis using i pl [of f] cl(2) Some by simp
    qed
    show ?thesis
    proof (cases wh)
      case Before
      have i: "insert p d wh ref k = Inr (place d1 q ?e
          (\<lambda>cs. takeWhile (\<lambda>c. c \<noteq> ?rr) cs @ ?e # dropWhile (\<lambda>c. c \<noteq> ?rr) cs), l)"
        using Before c pref Some na ne
        by (simp add: insert_def insertAdjacentElement_def insertBefore_def)
      show ?thesis
        by (rule fin [OF i]) (use Before sp in simp)
    next
      case After
      show ?thesis
      proof (cases ?post)
        case Nil
        then have i: "insert p d wh ref k = Inr (place d1 q ?e (\<lambda>cs. cs @ [?e]), l)"
          using c pref Some na After chq
          by (simp add: insert_def insertAdjacentElement_def appendChild_def)
        have "?cs @ [?e] = ?pre @ ?rr # ?e # ?post"
          using cs Nil by (metis append.assoc append_Cons append_Nil)
        then show ?thesis
          by (intro fin [OF i]) (use After in simp)
      next
        case (Cons nxt rest)
        have cs': "?cs = ?pre @ ?rr # nxt # rest" using cs Cons by simp
        have "nxt \<in> set ?cs" by (subst cs') simp
        then have nin1: "nxt \<in> set (children d1 q)" using chq by simp
        have pn: "parentElement d1 nxt = Some q"
          using nin1 wf_domD1 [OF cl(1), of nxt q] by simp
        have en: "?e \<noteq> nxt" using nin1 e_notin [of q] by auto
        have i: "insert p d wh ref k = Inr (place d1 q ?e
          (\<lambda>cs. takeWhile (\<lambda>c. c \<noteq> nxt) cs @ ?e # dropWhile (\<lambda>c. c \<noteq> nxt) cs), l)"
          using c pref Some na After Cons chq pn en
          by (simp add: insert_def insertAdjacentElement_def insertBefore_def)
        have d': "distinct (?pre @ ?rr # nxt # rest)" using dq cs' by simp
        have "takeWhile (\<lambda>c. c \<noteq> nxt) ?cs @ ?e # dropWhile (\<lambda>c. c \<noteq> nxt) ?cs =
              ?pre @ ?rr # ?e # ?post"
          using split_before_next [OF d'] cs' Cons by (metis append.assoc append_Cons append_Nil)
        then show ?thesis
          by (intro fin [OF i]) (use After in simp)
      qed
    qed
  qed
qed



theorem insert_foreign_reference_witness:
  "stack_inv plugin0 dom0 1 \<and> root_el (cyl CyNode 7) < next_elem dom0 \<and>
   root_el (cyl CyNode 7) \<notin> set (children dom0 1) \<and>
   parentElement dom0 (root_el (cyl CyNode 7)) = Some 6 \<and> distinct (children dom0 6) \<and>
   children dom0 6 = [7] \<and>
   (\<exists>d' l. insert plugin0 dom0 Before (cyl CyNode 7) KSvg = Inr (d', l) \<and> root_el l = 8 \<and>
      parentElement d' (root_el l) = Some 6 \<and> children d' 6 = [8, 7] \<and>
      children d' 1 = [2, 3, 4] \<and> getLayers plugin0 d' = getLayers plugin0 dom0) \<and>
   (\<exists>d' l. insert plugin0 dom0 After (cyl CyNode 7) KSvg = Inr (d', l) \<and> root_el l = 8 \<and>
      parentElement d' (root_el l) = Some 6 \<and> children d' 6 = [7, 8] \<and>
      children d' 1 = [2, 3, 4] \<and> getLayers plugin0 d' = getLayers plugin0 dom0)"
proof -
  have a: "root_el (cyl CyNode 7) < next_elem dom0" by (simp add: cyl_def dom0_def)
  have b: "root_el (cyl CyNode 7) \<notin> set (children dom0 1)" by (simp add: cyl_def dom0_def)
  have n: "next_elem dom0 = 8" and pa: "parentElement dom0 (root_el (cyl CyNode 7)) = Some 6"
    and c1: "children dom0 1 = [2, 3, 4]" and c6: "children dom0 6 = [7]"
    and r7: "root_el (cyl CyNode 7) = 7"
    by (simp_all add: cyl_def dom0_def)
  have e: "\<forall>q. parentElement dom0 (root_el (cyl CyNode 7)) = Some q \<longrightarrow> distinct (children dom0 q)"
    using pa c6 by simp
  have s: "pre = [] \<and> post = []" if "[7::nat] = pre @ 7 # post" for pre post
    using that by (cases pre) auto
  have 1: "\<exists>d' l. insert plugin0 dom0 Before (cyl CyNode 7) KSvg = Inr (d', l) \<and> root_el l = 8 \<and>
      parentElement d' (root_el l) = Some 6 \<and> children d' 6 = [8, 7] \<and>
      children d' 1 = [2, 3, 4] \<and> getLayers plugin0 d' = getLayers plugin0 dom0"
  proof -
    from insert_foreign_reference [OF stack_inv0 a b e, of Before KSvg]
    obtain d' l where i: "insert plugin0 dom0 Before (cyl CyNode 7) KSvg = Inr (d', l)"
      and rl: "root_el l = next_elem dom0"
      and pe: "parentElement d' (root_el l) = parentElement dom0 (root_el (cyl CyNode 7))"
      and adj: "\<forall>q. parentElement dom0 (root_el (cyl CyNode 7)) = Some q \<longrightarrow>
              (\<exists>pre post. children dom0 q = pre @ root_el (cyl CyNode 7) # post \<and>
                 children d' q = (case Before of
                      Before \<Rightarrow> pre @ root_el l # root_el (cyl CyNode 7) # post
                    | After \<Rightarrow> pre @ root_el (cyl CyNode 7) # root_el l # post))"
      and cr: "children d' 1 = children dom0 1"
      and gl: "getLayers plugin0 d' = getLayers plugin0 dom0"
      by blast
    from adj pa obtain pre post where sp: "children dom0 6 = pre @ root_el (cyl CyNode 7) # post"
      and ch: "children d' 6 = pre @ root_el l # root_el (cyl CyNode 7) # post"
      by auto
    have "pre = [] \<and> post = []" using s sp c6 r7 by simp
    then have "children d' 6 = [8, 7]" using ch rl n r7 by simp
    then show ?thesis using i rl n pe pa cr c1 gl by auto
  qed
  have 2: "\<exists>d' l. insert plugin0 dom0 After (cyl CyNode 7) KSvg = Inr (d', l) \<and> root_el l = 8 \<and>
      parentElement d' (root_el l) = Some 6 \<and> children d' 6 = [7, 8] \<and>
      children d' 1 = [2, 3, 4] \<and> getLayers plugin0 d' = getLayers plugin0 dom0"
  proof -
    from insert_foreign_reference [OF stack_inv0 a b e, of After KSvg]
    obtain d' l where i: "insert plugin0 dom0 After (cyl CyNode 7) KSvg = Inr (d', l)"
      and rl: "root_el l = next_elem dom0"
      and pe: "parentElement d' (root_el l) = parentElement dom0 (root_el (cyl CyNode 7))"
      and adj: "\<forall>q. parentElement dom0 (root_el (cyl CyNode 7)) = Some q \<longrightarrow>
              (\<exists>pre post. children dom0 q = pre @ root_el (cyl CyNode 7) # post \<and>
                 children d' q = (case After of
                      Before \<Rightarrow> pre @ root_el l # root_el (cyl CyNode 7) # post
                    | After \<Rightarrow> pre @ root_el (cyl CyNode 7) # root_el l # post))"
      and cr: "children d' 1 = children dom0 1"
      and gl: "getLayers plugin0 d' = getLayers plugin0 dom0"
      by blast
    from adj pa obtain pre post where sp: "children dom0 6 = pre @ root_el (cyl CyNode 7) # post"
      and ch: "children d' 6 = pre @ root_el (cyl CyNode 7) # root_el l # post"
      by auto
    have "pre = [] \<and> post = []" using s sp c6 r7 by simp
    then have "children d' 6 = [7, 8]" using ch rl n r7 by simp
    then show ?thesis using i rl n pe pa cr c1 gl by auto
  qed
  show ?thesis using stack_inv0 a b pa c6 1 2 by simp
qed




section \<open>Proofs about the accessor\<close>

lemma layers_singleton:
  "container cy \<noteq> None \<Longrightarrow> scratch cy ''_layers'' = Some p \<Longrightarrow> layers d cy = Inr (d, cy, p)"
  by (simp add: layers_def)

lemma new_LayersPlugin_Inr:
  assumes "new_LayersPlugin d cy = Inr (d', cy', p)"
  shows "container cy' = container cy \<and> container cy \<noteq> None \<and> pid p = plugins_made cy \<and>
         plugins_made cy' = Suc (plugins_made cy) \<and> scratch cy' = scratch cy \<and>
         core_listeners cy' = core_listeners cy @
           [(''viewport'', pid p, Zoomed), (''resize'', pid p, Resize), (''destroy'', pid p, Destroy)]"
  using assms
  by (auto simp: new_LayersPlugin_def Let_def split: option.splits sum.splits)

lemma layers_first:
  assumes "scratch cy ''_layers'' = None" and "layers d cy = Inr (d', cy', p)"
  shows "container cy' \<noteq> None \<and> scratch cy' ''_layers'' = Some p \<and> pid p = plugins_made cy \<and>
         plugins_made cy' = Suc (plugins_made cy)"
proof -
  from assms obtain cy1 where n: "new_LayersPlugin d cy = Inr (d', cy1, p)"
    and c: "cy' = cy1\<lparr>scratch := (scratch cy1)(''_layers'' := Some p)\<rparr>"
    by (auto simp: layers_def split: if_splits sum.splits)
  from new_LayersPlugin_Inr [OF n] c show ?thesis by simp
qed

lemma layers_Inr_stored:
  assumes "layers d cy = Inr (d', cy', p)"
  shows "container cy' \<noteq> None \<and> scratch cy' ''_layers'' = Some p"
proof (cases "scratch cy ''_layers''")
  case None
  then show ?thesis using layers_first [OF None assms] by simp
next
  case (Some q)
  then show ?thesis using assms by (auto simp: layers_def split: if_splits)
qed

lemma layers_again_fixed:
  "container cy \<noteq> None \<Longrightarrow> scratch cy ''_layers'' = Some p \<Longrightarrow>
   layers_again n (d, cy, p) = Inr (d, cy, p)"
  by (induction n) (simp_all add: layers_singleton)

text \<open>
  C10. A successful call of \<open>layers\<close> leaves the plugin it returns in the scratch storage
  of the core. When the storage was empty, that plugin is a newly constructed object.
  Any number of further calls return the same object and leave the document and the core
  as they are: no further plugin is constructed and no listener is added.
\<close>

theorem layers_idempotent:
  assumes "layers d cy = Inr (d', cy', p)"
  shows "scratch cy' ''_layers'' = Some p \<and>
         (scratch cy ''_layers'' = None \<longrightarrow>
            pid p = plugins_made cy \<and> plugins_made cy' = Suc (plugins_made cy)) \<and>
         layers d' cy' = Inr (d', cy', p) \<and>
         layers_again n (d', cy', p) = Inr (d', cy', p)"
proof -
  have s: "container cy' \<noteq> None" "scratch cy' ''_layers'' = Some p"
    using layers_Inr_stored [OF assms] by simp_all
  show ?thesis
    using s layers_first [OF _ assms] layers_singleton [OF s] layers_again_fixed [OF s]
    by simp
qed

lemma layers_dom0: "map_sum id (\<lambda>(d, cy, p). (p, plugins_made cy, core_listeners cy)) (layers dom0 core0) =
   Inr (plugin0, 1, [(''viewport'', 0, Zoomed), (''resize'', 0, Resize), (''destroy'', 0, Destroy)])"
  by code_simp

theorem layers_idempotent_witness:
  "scratch core0 ''_layers'' = None \<and>
   (\<exists>d' cy'. layers dom0 core0 = Inr (d', cy', plugin0) \<and> plugins_made cy' = 1 \<and>
      scratch cy' ''_layers'' = Some plugin0 \<and>
      layers d' cy' = Inr (d', cy', plugin0) \<and>
      layers_again 3 (d', cy', plugin0) = Inr (d', cy', plugin0))"
proof -
  obtain d' cy' where l: "layers dom0 core0 = Inr (d', cy', plugin0)" and m: "plugins_made cy' = 1"
    using layers_dom0 by (cases "layers dom0 core0") auto
  have "scratch core0 ''_layers'' = None" by (simp add: core0_def)
  with layers_idempotent [OF l, of 3] l m show ?thesis by auto
qed


section \<open>Proofs about the renderers\<close>

lemma canvas_node_cases:
  "canvas_node opts hst render hint t (ctx, calls) n =
     (if participates opts hst hint n
      then (let ctx1 = (if position opts = TopLeft
                        then translate (x1 (boundingBox hst n)) (y1 (boundingBox hst n)) ctx
                        else if position opts = Center
                        then translate (px (node_position hst n)) (py (node_position hst n)) ctx
                        else ctx);
                ctx2 = render ctx1 n (boundingBox hst n)
            in (if position opts \<noteq> PNone then setTransform t ctx2 else ctx2,
                calls @ [(n, getTransform ctx1)]))
      else (ctx, calls))"
  by (auto simp: canvas_node_def participates_def Let_def)

lemma canvas_node_restores:
  assumes "position opts \<noteq> PNone" and "getTransform ctx = t"
  shows "getTransform (fst (canvas_node opts hst render hint t (ctx, calls) n)) = t"
  using assms by (simp add: canvas_node_cases Let_def getTransform_def setTransform_def)

lemma foldl_canvas_node_restores:
  assumes "position opts \<noteq> PNone" and "getTransform (fst st) = t"
  shows "getTransform (fst (foldl (canvas_node opts hst render hint t) st ns)) = t"
  using assms(2)
proof (induction ns arbitrary: st)
  case Nil
  then show ?case by simp
next
  case (Cons n ns)
  obtain ctx calls where st: "st = (ctx, calls)" by (cases st)
  have "getTransform (fst (canvas_node opts hst render hint t st n)) = t"
    using canvas_node_restores [OF assms(1)] Cons.prems st by simp
  then show ?case using Cons.IH by simp
qed


lemma foldl_canvas_node_participants:
  "map fst (snd (foldl (canvas_node opts hst render hint t) st ns)) =
     map fst (snd st) @ filter (participates opts hst hint) ns"
proof (induction ns arbitrary: st)
  case Nil
  then show ?case by simp
next
  case (Cons n ns)
  obtain ctx calls where st: "st = (ctx, calls)" by (cases st)
  show ?case unfolding foldl_Cons Cons.IH st
    by (simp add: canvas_node_cases Let_def)
qed


lemma canvas_renderer_participants:
  "map fst (snd (fst (canvas_renderer opts hst render ctx hint s))) =
     filter (participates opts hst hint) (nodes (snd (canvas_renderer opts hst render ctx hint s)))"
  by (simp add: canvas_renderer_def canvas_loop_def Let_def foldl_canvas_node_participants)


text \<open>
  C4, as the claim states it, fails for position \<open>none\<close>: the callback shifts the
  transform, the renderer does not put it back, and the pass ends on \<open>(1, 0, 0, 1, 1, 0)\<close>.
\<close>

theorem canvas_transform_none_counterexample:
  "position (opts0\<lparr>position := PNone\<rparr>) = PNone \<and>
   map fst (snd (fst (canvas_renderer (opts0\<lparr>position := PNone\<rparr>) host0 shifting_render ctx0
                        \<lparr>forExport = False\<rparr> binding0))) = [1] \<and>
   getTransform ctx0 = (1, 0, 0, 1, 0, 0) \<and>
   getTransform (fst (fst (canvas_renderer (opts0\<lparr>position := PNone\<rparr>) host0 shifting_render ctx0
                        \<lparr>forExport = False\<rparr> binding0))) = (1, 0, 0, 1, 1, 0)"
  by (simp add: canvas_renderer_def canvas_loop_def canvas_node_def opts0_def host0_def
      binding0_def fresh_binding_def ctx0_def identity_matrix_def shifting_render_def
      getTransform_def translate_def translate_matrix_def box_def Let_def)

text \<open>
  C4, amended. With position \<open>top-left\<close> or \<open>center\<close>, the transform of the context
  after each element of the pass is the transform read before the first one. With
  position \<open>none\<close> the renderer neither sets nor restores the transform: the context an
  element leaves behind is the one its callback returned.
\<close>

theorem canvas_transform_after_element:
  "(position opts \<noteq> PNone \<longrightarrow>
      getTransform (fst (canvas_loop opts hst render hint (getTransform ctx) ctx (take k ns)))
        = getTransform ctx) \<and>
   (position opts = PNone \<longrightarrow> participates opts hst hint n \<longrightarrow>
      fst (canvas_node opts hst render hint t (ctx, calls) n) = render ctx n (boundingBox hst n))"
  by (simp add: canvas_loop_def foldl_canvas_node_restores canvas_node_cases)

theorem canvas_transform_after_element_witness:
  "position opts0 \<noteq> PNone \<and>
   getTransform (fst (canvas_loop opts0 host0 shifting_render \<lparr>forExport = False\<rparr>
                        (getTransform ctx0) ctx0 (take 1 [1, 2, 3]))) = getTransform ctx0 \<and>
   position (opts0\<lparr>position := PNone\<rparr>) = PNone \<and>
   participates (opts0\<lparr>position := PNone\<rparr>) host0 \<lparr>forExport = False\<rparr> 1 \<and>
   fst (canvas_node (opts0\<lparr>position := PNone\<rparr>) host0 shifting_render \<lparr>forExport = False\<rparr>
          identity_matrix (ctx0, []) 1) = shifting_render ctx0 1 (boundingBox host0 1)"
proof -
  have a: "position opts0 \<noteq> PNone" by (simp add: opts0_def)
  have b: "position (opts0\<lparr>position := PNone\<rparr>) = PNone" by simp
  have c: "participates (opts0\<lparr>position := PNone\<rparr>) host0 \<lparr>forExport = False\<rparr> 1"
    by (simp add: participates_def opts0_def host0_def box_def)
  from canvas_transform_after_element [of opts0 host0 shifting_render "\<lparr>forExport = False\<rparr>"
      ctx0 1 "[1, 2, 3]"] a
    canvas_transform_after_element [of "opts0\<lparr>position := PNone\<rparr>" host0 shifting_render
      "\<lparr>forExport = False\<rparr>" ctx0 0 "[]" 1 identity_matrix "[]"] b c
  show ?thesis by simp
qed




text \<open>
  C6, as the claim states it, fails on an HTML layer: element \<open>2\<close> lies outside the
  visible region, the pass is an export pass, and the element is not rendered.
\<close>

theorem bounds_check_html_export_counterexample:
  "checkBounds opts0 \<and> \<not> inVisibleBounds host0 (boundingBox host0 2) \<and> \<not> removed host0 2 \<and>
   2 \<in> set (nodes binding0) \<and> forExport \<lparr>forExport = True\<rparr> \<and>
   2 \<notin> set (rendered_in_pass Html opts0 host0 \<lparr>forExport = True\<rparr> binding0)"
  by (simp add: rendered_in_pass_def dom_renderer_def matchNodes_updated_def isVisible_def
      opts0_def host0_def binding0_def fresh_binding_def box_def)

text \<open>
  C6, amended. With \<open>checkBounds\<close> on and an element whose bounding box is outside the
  visible region: a canvas pass renders the element exactly when the pass is an export
  pass (and the element is in the collection and not removed); the visibility test that
  the HTML and SVG renderers hand to the matcher rejects the element whatever the pass,
  and an HTML or SVG pass does not render it.
\<close>

theorem bounds_check_export:
  assumes "checkBounds opts" and "\<not> inVisibleBounds hst (boundingBox hst n)"
  shows "(n \<in> set (map fst (snd (fst (canvas_renderer opts hst render ctx hint s)))) \<longleftrightarrow>
            forExport hint \<and> \<not> removed hst n \<and>
            n \<in> set (nodes (snd (canvas_renderer opts hst render ctx hint s)))) \<and>
         \<not> isVisible opts hst (boundingBox hst n) \<and>
         (ty \<noteq> Canvas \<longrightarrow> n \<notin> set (rendered_in_pass ty opts hst hint s))"
  using assms
  by (auto simp: canvas_renderer_participants participates_def isVisible_def
      rendered_in_pass_def dom_renderer_def matchNodes_updated_def Let_def split: option.splits)

theorem bounds_check_export_witness:
  "checkBounds opts0 \<and> \<not> inVisibleBounds host0 (boundingBox host0 2) \<and>
   2 \<notin> set (map fst (snd (fst (canvas_renderer opts0 host0 shifting_render ctx0
                                  \<lparr>forExport = False\<rparr> binding0)))) \<and>
   2 \<in> set (map fst (snd (fst (canvas_renderer opts0 host0 shifting_render ctx0
                                  \<lparr>forExport = True\<rparr> binding0)))) \<and>
   2 \<notin> set (rendered_in_pass Svg opts0 host0 \<lparr>forExport = True\<rparr> binding0)"
proof -
  have a: "checkBounds opts0" by (simp add: opts0_def)
  have b: "\<not> inVisibleBounds host0 (boundingBox host0 2)" by (simp add: host0_def box_def)
  have c: "\<not> removed host0 2" "\<not> queryEachTime opts0" "nodes binding0 = [1, 2, 3]"
    by (simp_all add: host0_def opts0_def binding0_def fresh_binding_def)
  have d: "snd (canvas_renderer opts0 host0 shifting_render ctx0 hint binding0) = binding0" for hint
    using c by (simp add: canvas_renderer_def)
  from bounds_check_export [OF a b, of shifting_render ctx0 "\<lparr>forExport = False\<rparr>" binding0 Svg]
    bounds_check_export [OF a b, of shifting_render ctx0 "\<lparr>forExport = True\<rparr>" binding0 Svg]
    a b c d
  show ?thesis by simp
qed


section \<open>Proofs about the binding\<close>

lemma event_names_simps:
  "event_names ''add remove'' = [''add'', ''remove'']"
  "event_names ''add'' = [''add'']"
  "event_names ''remove'' = [''remove'']"
  by (simp_all add: event_names_def)

lemma cy_on_simps:
  "cy_on ''add'' sel hdl s =
     s\<lparr>listeners := listeners s @ [\<lparr>l_target = Cy, l_event = ''add'', l_selector = Some sel,
                                      l_handler = hdl, l_once = False\<rparr>]\<rparr>"
  "cy_on ''remove'' sel hdl s =
     s\<lparr>listeners := listeners s @ [\<lparr>l_target = Cy, l_event = ''remove'', l_selector = Some sel,
                                      l_handler = hdl, l_once = False\<rparr>]\<rparr>"
  "cy_on ''add remove'' sel hdl s =
     s\<lparr>listeners := listeners s @ [\<lparr>l_target = Cy, l_event = ''add'', l_selector = Some sel,
                                      l_handler = hdl, l_once = False\<rparr>,
                                    \<lparr>l_target = Cy, l_event = ''remove'', l_selector = Some sel,
                                      l_handler = hdl, l_once = False\<rparr>]\<rparr>"
  by (simp_all add: cy_on_def event_names_simps)

lemma pending_filter:
  assumes "\<not> P render_once_listener"
  shows "length (filter (\<lambda>l. l = render_once_listener) (filter (\<lambda>l. \<not> P l) ls)) =
         length (filter (\<lambda>l. l = render_once_listener) ls)"
proof -
  have "filter (\<lambda>l. l = render_once_listener) (filter (\<lambda>l. \<not> P l) ls) =
        filter (\<lambda>l. l = render_once_listener) ls"
    unfolding filter_filter using assms by (intro filter_cong) auto
  then show ?thesis by simp
qed

lemma pending_append:
  assumes "list_all (\<lambda>l. \<not> l_once l) new"
  shows "length (filter (\<lambda>l. l = render_once_listener) (ls @ new)) =
         length (filter (\<lambda>l. l = render_once_listener) ls)"
proof -
  have "filter (\<lambda>l. l = render_once_listener) new = []"
    using assms by (auto simp: filter_empty_conv list_all_iff render_once_listener_def)
  then show ?thesis by simp
qed

lemma render_once_not_revaluate [simp]:
  "render_once_listener \<noteq> revaluate_listener opts ev"
  "render_once_listener \<noteq> remove_node_listener opts"
  "revaluate_listener opts ev \<noteq> remove_node_listener opts"
  by (simp_all add: render_once_listener_def revaluate_listener_def remove_node_listener_def)

lemma shape_new [simp]:
  "listener_shape opts (revaluate_listener opts ''add'')"
  "listener_shape opts (revaluate_listener opts ''remove'')"
  "listener_shape opts (remove_node_listener opts)"
  "listener_shape opts render_once_listener"
  by (simp_all add: listener_shape_def revaluate_listener_def remove_node_listener_def
      render_once_listener_def)

text \<open>The registry operations that \<open>reevaluateCollection\<close> uses keep the invariant.\<close>

lemma inv_nodes_off:
  assumes "binding_inv opts s"
  shows "binding_inv opts (nodes_off ns evs LayerUpdateOnRenderOnce s)"
proof -
  let ?P = "\<lambda>l. (case l_target l of El n \<Rightarrow> n \<in> set ns | Cy \<Rightarrow> False) \<and>
                 l_event l \<in> set (event_names evs) \<and> l_handler l = LayerUpdateOnRenderOnce"
  have "\<not> ?P render_once_listener" by (simp add: render_once_listener_def)
  from pending_filter [of ?P, OF this] assms show ?thesis
    by (simp add: binding_inv_def nodes_off_def pending_def list_all_iff)
qed

lemma inv_cy_off:
  assumes "binding_inv opts s"
  shows "binding_inv opts (cy_off evs sel RemoveNode s)"
proof -
  let ?P = "\<lambda>l. l_target l = Cy \<and> l_event l \<in> set (event_names evs) \<and>
                 l_selector l = Some sel \<and> l_handler l = RemoveNode"
  have "\<not> ?P render_once_listener" by (simp add: render_once_listener_def)
  from pending_filter [of ?P, OF this] assms show ?thesis
    by (simp add: binding_inv_def cy_off_def pending_def list_all_iff)
qed

lemma inv_nodes_on:
  assumes "binding_inv opts s"
  shows "binding_inv opts (nodes_on ns evs LayerUpdateOnRenderOnce s)"
proof -
  let ?new = "concat (map (\<lambda>n. map (\<lambda>e. \<lparr>l_target = El n, l_event = e, l_selector = None,
                l_handler = LayerUpdateOnRenderOnce, l_once = False\<rparr>) (event_names evs)) ns)"
  have n: "list_all (\<lambda>l. \<not> l_once l) ?new" "list_all (listener_shape opts) ?new"
    by (auto simp: list_all_iff listener_shape_def)
  from pending_append [OF n(1)] n(2) assms show ?thesis
    by (simp add: binding_inv_def nodes_on_def pending_def)
qed

lemma inv_append:
  assumes "binding_inv opts s" and "list_all (\<lambda>l. \<not> l_once l) new"
    and "list_all (listener_shape opts) new"
  shows "binding_inv opts (s\<lparr>listeners := listeners s @ new\<rparr>)"
  using pending_append [OF assms(2)] assms(1,3) by (simp add: binding_inv_def pending_def)

lemma inv_call: "binding_inv opts s \<Longrightarrow> binding_inv opts (call e s)"
  by (simp add: binding_inv_def call_def pending_def)



lemma cy_on_remove_eq:
  "cy_on ''remove'' (selector opts) RemoveNode s =
     s\<lparr>listeners := listeners s @ [remove_node_listener opts]\<rparr>"
  by (simp add: cy_on_simps remove_node_listener_def)

lemma cy_on_add_eq:
  "cy_on ''add'' (selector opts) RevaluateAndUpdateOnce s =
     s\<lparr>listeners := listeners s @ [revaluate_listener opts ''add'']\<rparr>"
  by (simp add: cy_on_simps revaluate_listener_def)

lemma cy_on_add_remove_eq:
  "cy_on ''add remove'' (selector opts) RevaluateAndUpdateOnce s =
     s\<lparr>listeners := listeners s @ [revaluate_listener opts ''add'',
                                    revaluate_listener opts ''remove'']\<rparr>"
  by (simp add: cy_on_simps revaluate_listener_def)

lemma not_once_new [simp]:
  "\<not> l_once (revaluate_listener opts ev)" "\<not> l_once (remove_node_listener opts)"
  by (simp_all add: revaluate_listener_def remove_node_listener_def)

lemma inv_cy_on_remove:
  "binding_inv opts s \<Longrightarrow> binding_inv opts (cy_on ''remove'' (selector opts) RemoveNode s)"
  unfolding cy_on_remove_eq by (rule inv_append) simp_all

lemma inv_cy_on_add:
  "binding_inv opts s \<Longrightarrow> binding_inv opts (cy_on ''add'' (selector opts) RevaluateAndUpdateOnce s)"
  unfolding cy_on_add_eq by (rule inv_append) simp_all

lemma inv_cy_on_add_remove:
  "binding_inv opts s \<Longrightarrow>
   binding_inv opts (cy_on ''add remove'' (selector opts) RevaluateAndUpdateOnce s)"
  unfolding cy_on_add_remove_eq by (rule inv_append) simp_all

lemma inv_nodes_update: "binding_inv opts s \<Longrightarrow> binding_inv opts (s\<lparr>nodes := ns\<rparr>)"
  by (simp add: binding_inv_def pending_def)

lemma reevaluate_unfold:
  "reevaluate opts s =
     (let s1 = (if updateOn_events opts then nodes_off (nodes s) (updateOn opts) LayerUpdateOnRenderOnce s
                else s);
          s2 = (if allowPartialUpdate opts then cy_off ''remove'' (selector opts) RemoveNode s1 else s1);
          s3 = call (InitCollection (cy_nodes s2)) s2;
          s4 = (if updateOn_events opts then nodes_on (cy_nodes s2) (updateOn opts) LayerUpdateOnRenderOnce s3
                else s3);
          s5 = (if allowPartialUpdate opts then cy_on ''remove'' (selector opts) RemoveNode s4 else s4)
      in (call UpdateOnRenderOnce s5)\<lparr>nodes := cy_nodes s2\<rparr>)"
  by (simp add: reevaluate_def reevaluateCollection_def Let_def)

lemma inv_reevaluate:
  assumes "binding_inv opts s"
  shows "binding_inv opts (reevaluate opts s)"
proof -
  define s1 where "s1 = (if updateOn_events opts
      then nodes_off (nodes s) (updateOn opts) LayerUpdateOnRenderOnce s else s)"
  define s2 where "s2 = (if allowPartialUpdate opts
      then cy_off ''remove'' (selector opts) RemoveNode s1 else s1)"
  define s3 where "s3 = call (InitCollection (cy_nodes s2)) s2"
  define s4 where "s4 = (if updateOn_events opts
      then nodes_on (cy_nodes s2) (updateOn opts) LayerUpdateOnRenderOnce s3 else s3)"
  define s5 where "s5 = (if allowPartialUpdate opts
      then cy_on ''remove'' (selector opts) RemoveNode s4 else s4)"
  have 1: "binding_inv opts s1" unfolding s1_def using assms by (simp add: inv_nodes_off)
  have 2: "binding_inv opts s2" unfolding s2_def using 1 by (simp add: inv_cy_off)
  have 3: "binding_inv opts s3" unfolding s3_def using 2 by (simp add: inv_call)
  have 4: "binding_inv opts s4" unfolding s4_def using 3 by (simp add: inv_nodes_on)
  have 5: "binding_inv opts s5" unfolding s5_def using 4 by (simp add: inv_cy_on_remove)
  have "reevaluate opts s = (call UpdateOnRenderOnce s5)\<lparr>nodes := cy_nodes s2\<rparr>"
    unfolding reevaluate_unfold s1_def s2_def s3_def s4_def s5_def Let_def ..
  then show ?thesis using 5 by (simp add: inv_call inv_nodes_update)
qed


lemma reevaluate_fields:
  "updateOnRenderOnceEnabled (reevaluate opts s) = updateOnRenderOnceEnabled s"
  "cy_nodes (reevaluate opts s) = cy_nodes s"
  "nodes (reevaluate opts s) = cy_nodes s"
  "trace (reevaluate opts s) = trace s @ [InitCollection (cy_nodes s), UpdateOnRenderOnce]"
  by (simp_all add: reevaluate_unfold Let_def nodes_off_def cy_off_def nodes_on_def cy_on_def
      call_def)

lemma reevaluate_counts:
  "reevaluations (reevaluate opts s) = Suc (reevaluations s)"
  "repaints (reevaluate opts s) = repaints s"
  by (simp_all add: reevaluations_def repaints_def reevaluate_fields)

lemma reevaluate_keeps_revaluate:
  assumes "revaluate_listener opts ev \<in> set (listeners s)"
  shows "revaluate_listener opts ev \<in> set (listeners (reevaluate opts s))"
  using assms
  by (auto simp: reevaluate_unfold Let_def nodes_off_def cy_off_def nodes_on_def cy_on_def
      call_def revaluate_listener_def)

lemma reevaluate_adds_remove_node:
  assumes "allowPartialUpdate opts"
  shows "remove_node_listener opts \<in> set (listeners (reevaluate opts s))"
  using assms
  by (simp add: reevaluate_unfold Let_def cy_on_remove_eq call_def)

lemma routed_reevaluate: "routed opts s \<Longrightarrow> routed opts (reevaluate opts s)"
  unfolding routed_def
  using reevaluate_keeps_revaluate reevaluate_adds_remove_node by blast

text \<open>The three handlers of the add and remove listeners.\<close>

lemma inv_revaluateAndUpdateOnce:
  assumes "binding_inv opts s"
  shows "binding_inv opts (revaluateAndUpdateOnce s)"
  using assms
  by (auto simp: revaluateAndUpdateOnce_def binding_inv_def pending_def)

lemma revaluateAndUpdateOnce_fields:
  "updateOnRenderOnceEnabled (revaluateAndUpdateOnce s)"
  "trace (revaluateAndUpdateOnce s) = trace s"
  "nodes (revaluateAndUpdateOnce s) = nodes s"
  "cy_nodes (revaluateAndUpdateOnce s) = cy_nodes s"
  "set (listeners s) \<subseteq> set (listeners (revaluateAndUpdateOnce s))"
  by (auto simp: revaluateAndUpdateOnce_def)

lemma revaluateAndUpdateOnce_pending:
  "updateOnRenderOnceEnabled s \<Longrightarrow> revaluateAndUpdateOnce s = s"
  by (simp add: revaluateAndUpdateOnce_def)

lemma removeNode_fields:
  "updateOnRenderOnceEnabled (removeNode n s) = updateOnRenderOnceEnabled s"
  "listeners (removeNode n s) = listeners s"
  "cy_nodes (removeNode n s) = cy_nodes s"
  "nodes (removeNode n s) = removeAll n (nodes s)"
  "trace (removeNode n s) = trace s @ [Update (Some n) (removeAll n (nodes s))]"
  by (simp_all add: removeNode_def layer_update_def call_def)

lemma inv_removeNode: "binding_inv opts s \<Longrightarrow> binding_inv opts (removeNode n s)"
  by (simp add: binding_inv_def pending_def removeNode_fields)


text \<open>
  A listener other than the one-shot callback fires: no re-evaluation, the flag is not
  cleared, and no listener is lost.
\<close>

lemma fire_quiet:
  assumes p: "quiet l" and inv: "binding_inv opts s"
  shows "binding_inv opts (fire opts ev l s)"
    and "set (listeners s) \<subseteq> set (listeners (fire opts ev l s))"
    and "reevaluations (fire opts ev l s) = reevaluations s"
    and "updateOnRenderOnceEnabled s \<Longrightarrow> updateOnRenderOnceEnabled (fire opts ev l s)"
    and "l_handler l = RevaluateAndUpdateOnce \<Longrightarrow> updateOnRenderOnceEnabled (fire opts ev l s)"
    and "cy_nodes (fire opts ev l s) = cy_nodes s"
proof -
  consider (a) "l_handler l = RevaluateAndUpdateOnce" | (b) "l_handler l = RemoveNode"
    | (c) "l_handler l = LayerUpdateOnRenderOnce"
    using p by (cases "l_handler l") (auto simp: quiet_def)
  then have "binding_inv opts (fire opts ev l s) \<and>
      set (listeners s) \<subseteq> set (listeners (fire opts ev l s)) \<and>
      reevaluations (fire opts ev l s) = reevaluations s \<and>
      (updateOnRenderOnceEnabled s \<longrightarrow> updateOnRenderOnceEnabled (fire opts ev l s)) \<and>
      (l_handler l = RevaluateAndUpdateOnce \<longrightarrow> updateOnRenderOnceEnabled (fire opts ev l s)) \<and>
      cy_nodes (fire opts ev l s) = cy_nodes s"
  proof cases
    case a
    then have "fire opts ev l s = revaluateAndUpdateOnce s"
      using p by (simp add: fire_def quiet_def)
    then show ?thesis
      using inv_revaluateAndUpdateOnce [OF inv] revaluateAndUpdateOnce_fields [of s]
      by (simp add: reevaluations_def)
  next
    case b
    then have "fire opts ev l s = (case event_target ev of None \<Rightarrow> s | Some n \<Rightarrow> removeNode n s)"
      using p by (simp add: fire_def quiet_def)
    then show ?thesis
      using inv inv_removeNode [OF inv] b
      by (cases "event_target ev") (simp_all add: removeNode_fields reevaluations_def)
  next
    case c
    then have "fire opts ev l s = call UpdateOnRenderOnce s"
      using p by (simp add: fire_def quiet_def)
    then show ?thesis
      using inv_call [OF inv] c by (simp add: call_def reevaluations_def)
  qed
  then show "binding_inv opts (fire opts ev l s)"
    and "set (listeners s) \<subseteq> set (listeners (fire opts ev l s))"
    and "reevaluations (fire opts ev l s) = reevaluations s"
    and "updateOnRenderOnceEnabled s \<Longrightarrow> updateOnRenderOnceEnabled (fire opts ev l s)"
    and "l_handler l = RevaluateAndUpdateOnce \<Longrightarrow> updateOnRenderOnceEnabled (fire opts ev l s)"
    and "cy_nodes (fire opts ev l s) = cy_nodes s"
    by simp_all
qed

lemma foldl_fire_quiet:
  assumes "list_all quiet ls" and "binding_inv opts s"
  shows "binding_inv opts (foldl (\<lambda>st l. fire opts ev l st) s ls) \<and>
         set (listeners s) \<subseteq> set (listeners (foldl (\<lambda>st l. fire opts ev l st) s ls)) \<and>
         reevaluations (foldl (\<lambda>st l. fire opts ev l st) s ls) = reevaluations s \<and>
         cy_nodes (foldl (\<lambda>st l. fire opts ev l st) s ls) = cy_nodes s \<and>
         (updateOnRenderOnceEnabled s \<or> (\<exists>l \<in> set ls. l_handler l = RevaluateAndUpdateOnce)
            \<longrightarrow> updateOnRenderOnceEnabled (foldl (\<lambda>st l. fire opts ev l st) s ls))"
  using assms
proof (induction ls arbitrary: s)
  case Nil
  then show ?case by simp
next
  case (Cons l ls)
  have p: "quiet l" and ps: "list_all quiet ls" using Cons.prems(1) by simp_all
  note f = fire_quiet [OF p Cons.prems(2), of ev]
  from Cons.IH [OF ps f(1)] f(2-6) show ?case by auto
qed

lemma reached_quiet:
  assumes "list_all (listener_shape opts) ls" and "ev \<noteq> Render"
  shows "list_all quiet (reached ev ls)"
proof -
  have "quiet l" if "l \<in> set ls" "l \<in> set (reached ev ls)" for l
  proof -
    have sh: "listener_shape opts l" using assms(1) that(1) by (simp add: list_all_iff)
    have nr: "l \<noteq> render_once_listener"
      using that(2) assms(2)
      by (cases ev) (auto simp: reached_def on_element_def on_core_def render_once_listener_def)
    show ?thesis
      using sh nr
      by (auto simp: listener_shape_def quiet_def revaluate_listener_def
          remove_node_listener_def split: if_splits target.splits)
  qed
  moreover have "set (reached ev ls) \<subseteq> set ls"
    by (cases ev) (auto simp: reached_def)
  ultimately show ?thesis by (auto simp: list_all_iff)
qed

lemma host_change_fields:
  "listeners (host_change ev s) = listeners s"
  "updateOnRenderOnceEnabled (host_change ev s) = updateOnRenderOnceEnabled s"
  "trace (host_change ev s) = trace s"
  "nodes (host_change ev s) = nodes s"
  by (cases ev; simp add: host_change_def)+

lemma inv_host_change: "binding_inv opts s \<Longrightarrow> binding_inv opts (host_change ev s)"
  by (simp add: binding_inv_def pending_def host_change_fields)

lemma emit_quiet:
  assumes inv: "binding_inv opts s" and ev: "ev \<noteq> Render"
  shows "binding_inv opts (emit opts ev s) \<and>
         set (listeners s) \<subseteq> set (listeners (emit opts ev s)) \<and>
         reevaluations (emit opts ev s) = reevaluations s \<and>
         (updateOnRenderOnceEnabled s \<or>
          (\<exists>l \<in> set (reached ev (listeners s)). l_handler l = RevaluateAndUpdateOnce)
            \<longrightarrow> updateOnRenderOnceEnabled (emit opts ev s))"
proof -
  have inv0: "binding_inv opts (host_change ev s)" by (rule inv_host_change [OF inv])
  have "list_all (listener_shape opts) (listeners s)" using inv by (simp add: binding_inv_def)
  then have p: "list_all quiet (reached ev (listeners (host_change ev s)))"
    using reached_quiet [OF _ ev] by (simp add: host_change_fields)
  from foldl_fire_quiet [OF p inv0, of ev] show ?thesis
    by (simp add: emit_def Let_def host_change_fields reevaluations_def)
qed


text \<open>The frame: only the one-shot callback is reached.\<close>

lemma reached_render:
  assumes "list_all (listener_shape opts) ls"
  shows "reached Render ls = filter (\<lambda>l. l = render_once_listener) ls"
proof -
  have "(on_core ''render'' l \<and> l_selector l = None) = (l = render_once_listener)"
    if "l \<in> set ls" for l
  proof -
    have "listener_shape opts l" using assms that by (simp add: list_all_iff)
    then show ?thesis
      by (auto simp: listener_shape_def on_core_def render_once_listener_def
          revaluate_listener_def remove_node_listener_def split: if_splits target.splits)
  qed
  then show ?thesis unfolding reached_def by (auto intro: filter_cong)
qed

lemma filter_eq_one:
  assumes "length (filter (\<lambda>l. l = x) ls) = 1"
  shows "filter (\<lambda>l. l = x) ls = [x]"
proof -
  obtain y where y: "filter (\<lambda>l. l = x) ls = [y]"
    using assms by (cases "filter (\<lambda>l. l = x) ls") auto
  have "set (filter (\<lambda>l. l = x) ls) \<subseteq> {x}" by auto
  then have "y = x" unfolding y by simp
  then show ?thesis using y by simp
qed

lemma pending_remove1:
  "length (filter (\<lambda>l. l = x) (remove1 x ls)) = length (filter (\<lambda>l. l = x) ls) - 1"
  by (induction ls) auto

lemma emit_render_idle:
  assumes "binding_inv opts s" and "\<not> updateOnRenderOnceEnabled s"
  shows "emit opts Render s = s"
proof -
  have "filter (\<lambda>l. l = render_once_listener) (listeners s) = []"
    using assms by (simp add: binding_inv_def pending_def)
  then show ?thesis
    using assms reached_render [of opts "listeners s"]
    by (simp add: emit_def host_change_def binding_inv_def)
qed

lemma emit_render_pending:
  assumes "binding_inv opts s" and "updateOnRenderOnceEnabled s"
  shows "emit opts Render s =
         render_once_callback opts (s\<lparr>listeners := remove1 render_once_listener (listeners s)\<rparr>)"
proof -
  have "filter (\<lambda>l. l = render_once_listener) (listeners s) = [render_once_listener]"
    using assms by (intro filter_eq_one) (simp add: binding_inv_def pending_def)
  then show ?thesis
    using assms reached_render [of opts "listeners s"]
    by (simp add: emit_def host_change_def binding_inv_def fire_def render_once_listener_def)
qed

lemma render_once_callback_props:
  assumes inv: "binding_inv opts s" and f: "updateOnRenderOnceEnabled s"
  defines "s' \<equiv> render_once_callback opts (s\<lparr>listeners := remove1 render_once_listener (listeners s)\<rparr>)"
  shows "binding_inv opts s'" and "\<not> updateOnRenderOnceEnabled s'" and "pending s' = 0"
    and "reevaluations s' = Suc (reevaluations s)" and "repaints s' = Suc (repaints s)"
    and "routed opts s \<Longrightarrow> routed opts s'"
proof -
  let ?s1 = "s\<lparr>listeners := remove1 render_once_listener (listeners s),
               updateOnRenderOnceEnabled := False\<rparr>"
  have s': "s' = layer_update None (reevaluate opts ?s1)"
    by (simp add: s'_def render_once_callback_def)
  have "list_all (listener_shape opts) (remove1 render_once_listener (listeners s))"
    using inv by (auto simp: binding_inv_def list_all_iff dest: notin_set_remove1)
  moreover have "pending ?s1 = 0"
    using inv f by (simp add: binding_inv_def pending_def pending_remove1)
  ultimately have inv1: "binding_inv opts ?s1" by (simp add: binding_inv_def)
  have inv2: "binding_inv opts (reevaluate opts ?s1)" by (rule inv_reevaluate [OF inv1])
  show i: "binding_inv opts s'"
    using inv2 by (simp add: s' layer_update_def inv_call)
  show nf: "\<not> updateOnRenderOnceEnabled s'"
    by (simp add: s' layer_update_def call_def reevaluate_fields)
  show "pending s' = 0" using i nf by (simp add: binding_inv_def)
  show "reevaluations s' = Suc (reevaluations s)"
    using reevaluate_counts(1) [of opts ?s1]
    by (simp add: s' layer_update_def call_def reevaluations_def)
  show "repaints s' = Suc (repaints s)"
    using reevaluate_counts(2) [of opts ?s1]
    by (simp add: s' layer_update_def call_def repaints_def)
  show "routed opts s'" if r: "routed opts s"
  proof -
    have "x \<in> set (remove1 render_once_listener (listeners s))"
      if "x \<in> set (listeners s)" "x \<noteq> render_once_listener" for x
      using that by (simp add: in_set_remove1)
    note m = this
    have ne: "revaluate_listener opts ''add'' \<noteq> render_once_listener"
      "revaluate_listener opts ''remove'' \<noteq> render_once_listener"
      "remove_node_listener opts \<noteq> render_once_listener"
      by (simp_all add: render_once_listener_def revaluate_listener_def remove_node_listener_def)
    have "routed opts ?s1"
      unfolding routed_def using r m [OF _ ne(1)] m [OF _ ne(2)] m [OF _ ne(3)]
      by (auto simp: routed_def)
    then have "routed opts (reevaluate opts ?s1)" by (rule routed_reevaluate)
    then show ?thesis by (simp add: s' layer_update_def call_def routed_def)
  qed
qed

lemma good_emit:
  assumes "good opts s"
  shows "good opts (emit opts ev s)"
proof (cases "ev = Render")
  case True
  show ?thesis
  proof (cases "updateOnRenderOnceEnabled s")
    case False
    then show ?thesis using assms True emit_render_idle by (simp add: good_def)
  next
    case f: True
    have inv: "binding_inv opts s" using assms by (simp add: good_def)
    show ?thesis
      using assms render_once_callback_props(1,6) [OF inv f]
      by (simp add: good_def True emit_render_pending [OF inv f])
  qed
next
  case False
  have inv: "binding_inv opts s" using assms by (simp add: good_def)
  from emit_quiet [OF inv False] assms show ?thesis
    by (auto simp: good_def routed_def)
qed

lemma good_emit_all: "good opts s \<Longrightarrow> good opts (emit_all opts evs s)"
  unfolding emit_all_def
  by (induction evs arbitrary: s) (simp_all add: good_emit)

lemma inv_fresh: "binding_inv opts (fresh_binding host)"
  by (simp add: binding_inv_def fresh_binding_def pending_def)

lemma good_renderPerNode: "good opts (renderPerNode opts (fresh_binding host))"
proof -
  define s1 where "s1 = (if updateOn opts = ''render''
      then (fresh_binding host)\<lparr>updateOnRender := True\<rparr> else fresh_binding host)"
  have i1: "binding_inv opts s1"
    using inv_fresh [of opts host] by (simp add: s1_def binding_inv_def pending_def fresh_binding_def)
  show ?thesis
  proof (cases "queryEachTime opts")
    case True
    then show ?thesis using i1 by (simp add: good_def renderPerNode_def s1_def Let_def)
  next
    case False
    let ?s2 = "reevaluate opts s1"
    have i2: "binding_inv opts ?s2" by (rule inv_reevaluate [OF i1])
    have rn: "allowPartialUpdate opts \<Longrightarrow> remove_node_listener opts \<in> set (listeners ?s2)"
      by (rule reevaluate_adds_remove_node)
    show ?thesis
    proof (cases "allowPartialUpdate opts \<and> updateOn_events opts")
      case True
      have e: "renderPerNode opts (fresh_binding host) =
          cy_on ''remove'' (selector opts) RemoveNode
            (cy_on ''add'' (selector opts) RevaluateAndUpdateOnce ?s2)"
        unfolding renderPerNode_def Let_def s1_def [symmetric]
        using False True by simp
      have "binding_inv opts (renderPerNode opts (fresh_binding host))"
        unfolding e by (intro inv_cy_on_remove inv_cy_on_add i2)
      moreover have "routed opts (renderPerNode opts (fresh_binding host))"
        unfolding e using True by (simp add: routed_def cy_on_remove_eq cy_on_add_eq)
      ultimately show ?thesis by (simp add: good_def)
    next
      case nt: False
      have e: "renderPerNode opts (fresh_binding host) =
          cy_on ''add remove'' (selector opts) RevaluateAndUpdateOnce ?s2"
        unfolding renderPerNode_def Let_def s1_def [symmetric]
        using False nt by auto
      have "binding_inv opts (renderPerNode opts (fresh_binding host))"
        unfolding e by (intro inv_cy_on_add_remove i2)
      moreover have "routed opts (renderPerNode opts (fresh_binding host))"
        unfolding e using rn by (auto simp: routed_def cy_on_add_remove_eq)
      ultimately show ?thesis by (simp add: good_def)
    qed
  qed
qed

lemma good_reachable: "good opts (reachable opts host history)"
  unfolding reachable_def by (intro good_emit_all good_renderPerNode)


text \<open>A burst of add and remove events.\<close>

lemma invalidating_reached:
  assumes "routed opts s" and "invalidating opts ev"
  shows "\<exists>l \<in> set (reached ev (listeners s)). l_handler l = RevaluateAndUpdateOnce"
proof (cases ev)
  case (Add n)
  have "revaluate_listener opts ''add'' \<in> set (reached ev (listeners s))"
    using assms(1) Add by (simp add: routed_def reached_def on_core_def revaluate_listener_def)
  then show ?thesis by (auto simp: revaluate_listener_def intro!: bexI)
next
  case (Remove n)
  have "revaluate_listener opts ''remove'' \<in> set (reached ev (listeners s))"
    using assms Remove
    by (auto simp: routed_def invalidating_def reached_def on_core_def revaluate_listener_def)
  then show ?thesis by (auto simp: revaluate_listener_def intro!: bexI)
next
  case Render
  then show ?thesis using assms(2) by (simp add: invalidating_def)
next
  case (Other name n)
  then show ?thesis using assms(2) by (simp add: invalidating_def)
qed

lemma burst_props:
  assumes "\<not> queryEachTime opts" and "good opts s" and "list_all add_or_remove es"
  shows "good opts (emit_all opts es s) \<and>
         reevaluations (emit_all opts es s) = reevaluations s \<and>
         (updateOnRenderOnceEnabled s \<or> list_ex (invalidating opts) es
            \<longrightarrow> updateOnRenderOnceEnabled (emit_all opts es s))"
  using assms(2,3)
proof (induction es arbitrary: s)
  case Nil
  then show ?case by (simp add: emit_all_def)
next
  case (Cons ev es)
  have ne: "ev \<noteq> Render" using Cons.prems(2) by (auto simp: add_or_remove_def)
  have inv: "binding_inv opts s" and r: "routed opts s"
    using Cons.prems(1) assms(1) by (simp_all add: good_def)
  note q = emit_quiet [OF inv ne]
  have g: "good opts (emit opts ev s)" by (rule good_emit [OF Cons.prems(1)])
  have f: "updateOnRenderOnceEnabled (emit opts ev s)"
    if "updateOnRenderOnceEnabled s \<or> invalidating opts ev"
    using that q invalidating_reached [OF r] by blast
  have e: "emit_all opts (ev # es) s = emit_all opts es (emit opts ev s)"
    by (simp add: emit_all_def)
  from Cons.IH [OF g] Cons.prems(2) q f show ?case
    unfolding e by auto
qed

text \<open>
  C2. In cached mode, in any state the binding reaches from its set-up, a burst of add
  and remove events of which at least one invalidates the cache sets the flag and leaves
  exactly one one-shot listener on \<open>render\<close>; scheduling again changes nothing; no
  re-evaluation happens during the burst; at the next frame the collection is
  re-evaluated once, \<open>layer.update()\<close> is called once, and nothing stays pending. The
  repaints counted are the calls of \<open>layer.update\<close> made by the binding.
\<close>

theorem deferred_update_once:
  assumes "\<not> queryEachTime opts"
    and "list_all add_or_remove burst" and "list_ex (invalidating opts) burst"
    and "s = reachable opts host history"
    and "s1 = emit_all opts burst s" and "s2 = emit opts Render s1"
  shows "updateOnRenderOnceEnabled s1 \<and> pending s1 = 1 \<and> revaluateAndUpdateOnce s1 = s1 \<and>
         reevaluations s1 = reevaluations s \<and>
         reevaluations s2 = reevaluations s1 + 1 \<and> repaints s2 = repaints s1 + 1 \<and>
         pending s2 = 0 \<and> \<not> updateOnRenderOnceEnabled s2"
proof -
  have g: "good opts s" unfolding assms(4) by (rule good_reachable)
  from burst_props [OF assms(1) g assms(2)] assms(3,5)
  have g1: "good opts s1" and re: "reevaluations s1 = reevaluations s"
    and f: "updateOnRenderOnceEnabled s1"
    by simp_all
  have inv: "binding_inv opts s1" using g1 by (simp add: good_def)
  have p: "pending s1 = 1" using inv f by (simp add: binding_inv_def)
  have s2: "s2 = render_once_callback opts
      (s1\<lparr>listeners := remove1 render_once_listener (listeners s1)\<rparr>)"
    unfolding assms(6) by (rule emit_render_pending [OF inv f])
  from render_once_callback_props(2-5) [OF inv f] f p re
  show ?thesis unfolding s2 by (simp add: revaluateAndUpdateOnce_pending)
qed


text \<open>A remove event and the cached collection.\<close>

lemma fire_remove:
  assumes "quiet l"
  shows "(l_handler l = RemoveNode \<longrightarrow>
            nodes (fire opts (Remove n) l s) = removeAll n (nodes s) \<and>
            trace (fire opts (Remove n) l s) = trace s @ [Update (Some n) (removeAll n (nodes s))]) \<and>
         (l_handler l \<noteq> RemoveNode \<longrightarrow>
            nodes (fire opts (Remove n) l s) = nodes s \<and>
            (trace (fire opts (Remove n) l s) = trace s \<or>
             trace (fire opts (Remove n) l s) = trace s @ [UpdateOnRenderOnce]))"
  using assms
  by (cases "l_handler l")
     (auto simp: fire_def quiet_def event_target_def removeNode_fields
        revaluateAndUpdateOnce_def call_def)

lemma foldl_fire_remove:
  assumes "list_all quiet ls" and "removeAll n (nodes s) = N"
  shows "\<exists>extra. trace (foldl (\<lambda>st l. fire opts (Remove n) l st) s ls) = trace s @ extra \<and>
           (\<forall>e \<in> set extra. e = UpdateOnRenderOnce \<or> e = Update (Some n) N) \<and>
           removeAll n (nodes (foldl (\<lambda>st l. fire opts (Remove n) l st) s ls)) = N \<and>
           ((\<exists>l \<in> set ls. l_handler l = RemoveNode) \<longrightarrow>
              nodes (foldl (\<lambda>st l. fire opts (Remove n) l st) s ls) = N \<and>
              Update (Some n) N \<in> set extra) \<and>
           (nodes s = N \<longrightarrow> nodes (foldl (\<lambda>st l. fire opts (Remove n) l st) s ls) = N)"
  using assms
proof (induction ls arbitrary: s)
  case Nil
  then show ?case by simp
next
  case (Cons l ls)
  let ?s1 = "fire opts (Remove n) l s"
  have q: "quiet l" and qs: "list_all quiet ls" using Cons.prems(1) by simp_all
  note f = fire_remove [OF q, of opts n s]
  have N1: "removeAll n (nodes ?s1) = N"
    using f Cons.prems(2) by (cases "l_handler l = RemoveNode") auto
  from Cons.IH [OF qs N1] obtain extra where
    tr: "trace (foldl (\<lambda>st l. fire opts (Remove n) l st) ?s1 ls) = trace ?s1 @ extra"
    and ex: "\<forall>e \<in> set extra. e = UpdateOnRenderOnce \<or> e = Update (Some n) N"
    and rn: "removeAll n (nodes (foldl (\<lambda>st l. fire opts (Remove n) l st) ?s1 ls)) = N"
    and hit: "(\<exists>l \<in> set ls. l_handler l = RemoveNode) \<longrightarrow>
              nodes (foldl (\<lambda>st l. fire opts (Remove n) l st) ?s1 ls) = N \<and>
              Update (Some n) N \<in> set extra"
    and keep: "nodes ?s1 = N \<longrightarrow> nodes (foldl (\<lambda>st l. fire opts (Remove n) l st) ?s1 ls) = N"
    by blast
  show ?case
  proof (cases "l_handler l = RemoveNode")
    case True
    then have a: "nodes ?s1 = N" "trace ?s1 = trace s @ [Update (Some n) N]"
      using f Cons.prems(2) by simp_all
    show ?thesis
      by (rule exI [of _ "Update (Some n) N # extra"])
         (use a tr ex rn keep True in auto)
  next
    case False
    then consider (a) "nodes ?s1 = nodes s" "trace ?s1 = trace s"
      | (b) "nodes ?s1 = nodes s" "trace ?s1 = trace s @ [UpdateOnRenderOnce]"
      using f by blast
    then show ?thesis
    proof cases
      case a
      show ?thesis
        by (rule exI [of _ extra]) (use a tr ex rn keep hit False in auto)
    next
      case b
      show ?thesis
        by (rule exI [of _ "UpdateOnRenderOnce # extra"]) (use b tr ex rn keep hit False in auto)
    qed
  qed
qed

lemma emit_remove:
  assumes inv: "binding_inv opts s" and r: "remove_node_listener opts \<in> set (listeners s)"
  shows "nodes (emit opts (Remove n) s) = removeAll n (nodes s) \<and>
         (\<exists>extra. trace (emit opts (Remove n) s) = trace s @ extra \<and>
            Update (Some n) (removeAll n (nodes s)) \<in> set extra \<and>
            (\<forall>e \<in> set extra. e = UpdateOnRenderOnce \<or> e = Update (Some n) (removeAll n (nodes s))))"
proof -
  let ?s0 = "host_change (Remove n) s"
  have sh: "list_all (listener_shape opts) (listeners s)" using inv by (simp add: binding_inv_def)
  have q: "list_all quiet (reached (Remove n) (listeners ?s0))"
    using reached_quiet [OF sh, of "Remove n"] by (simp add: host_change_fields)
  have m: "\<exists>l \<in> set (reached (Remove n) (listeners ?s0)). l_handler l = RemoveNode"
    using r
    by (intro bexI [of _ "remove_node_listener opts"])
       (simp_all add: host_change_fields reached_def on_core_def remove_node_listener_def)
  have N: "removeAll n (nodes ?s0) = removeAll n (nodes s)" by (simp add: host_change_fields)
  from foldl_fire_remove [OF q N, of opts] m show ?thesis
    unfolding emit_def Let_def by (auto simp: host_change_fields)
qed


theorem deferred_update_once_witness:
  "\<not> queryEachTime opts0 \<and> list_all add_or_remove burst0 \<and>
   list_ex (invalidating opts0) burst0 \<and>
   pending (emit_all opts0 burst0 (reachable opts0 [1, 2, 3] [Render])) = 1 \<and>
   revaluateAndUpdateOnce (emit_all opts0 burst0 (reachable opts0 [1, 2, 3] [Render])) =
     emit_all opts0 burst0 (reachable opts0 [1, 2, 3] [Render]) \<and>
   reevaluations (emit opts0 Render (emit_all opts0 burst0 (reachable opts0 [1, 2, 3] [Render]))) =
     reevaluations (emit_all opts0 burst0 (reachable opts0 [1, 2, 3] [Render])) + 1 \<and>
   repaints (emit opts0 Render (emit_all opts0 burst0 (reachable opts0 [1, 2, 3] [Render]))) =
     repaints (emit_all opts0 burst0 (reachable opts0 [1, 2, 3] [Render])) + 1 \<and>
   pending (emit opts0 Render (emit_all opts0 burst0 (reachable opts0 [1, 2, 3] [Render]))) = 0 \<and>
   reevaluations (emit opts0 Render (emit_all opts0 burst0 (reachable opts0 [1, 2, 3] [Render]))) = 2 \<and>
   repaints (emit opts0 Render (emit_all opts0 burst0 (reachable opts0 [1, 2, 3] [Render]))) = 1"
proof -
  have n: "reevaluations (emit opts0 Render (emit_all opts0 burst0 (reachable opts0 [1, 2, 3] [Render]))) = 2 \<and>
     repaints (emit opts0 Render (emit_all opts0 burst0 (reachable opts0 [1, 2, 3] [Render]))) = 1"
    by code_simp
  have a: "\<not> queryEachTime opts0" by (simp add: opts0_def)
  have b: "list_all add_or_remove burst0" by (simp add: burst0_def add_or_remove_def)
  have c: "list_ex (invalidating opts0) burst0" by (simp add: burst0_def invalidating_def)
  from deferred_update_once [OF a b c refl refl refl, of "[1, 2, 3]" "[Render]"] a b c n
  show ?thesis by simp
qed

text \<open>
  C7. The options ask for partial updates and for \<open>updateOn: 'render'\<close>. The set-up
  registers \<open>removeNode\<close> for \<open>remove\<close> (in \<open>reevaluateCollection\<close>) and the
  re-evaluation for \<open>add\<close> and \<open>remove\<close>. The \<open>remove\<close> handle unregisters the
  re-evaluation only: \<open>removeNode\<close> stays on the core. With an event name in
  \<open>updateOn\<close> the same set-up is cleared completely.
\<close>

theorem remove_handle_leaves_removeNode:
  "allowPartialUpdate opts_partial \<and> updateOn opts_partial = ''render'' \<and>
   \<not> queryEachTime opts_partial \<and>
   listeners (renderPerNode opts_partial (fresh_binding [1, 2, 3])) =
     [remove_node_listener opts_partial, revaluate_listener opts_partial ''add'',
      revaluate_listener opts_partial ''remove''] \<and>
   listeners (remove_handle opts_partial (renderPerNode opts_partial (fresh_binding [1, 2, 3]))) =
     [remove_node_listener opts_partial] \<and>
   listeners (remove_handle (opts_partial\<lparr>updateOn := ''position''\<rparr>)
               (renderPerNode (opts_partial\<lparr>updateOn := ''position''\<rparr>) (fresh_binding [1, 2, 3])))
     = []"
  by code_simp

text \<open>
  C8. In a pass over a binding on a layer of any type, the render callback runs for no
  element that reports itself removed: the canvas loop returns before the callback, and
  the HTML and SVG renderers, for the cached collection as for the element of a partial
  update, leave the choice to the matcher, which updates no removed element.
  \<open>removeNode\<close> takes exactly the removed element out of the cached collection and then
  calls \<open>layer.update\<close> with it, so the repaint finds the collection without the
  element. With partial updates, in cached mode, a remove event delivered in any state
  the binding reaches does this: afterwards the collection is the old one without the
  element, and every \<open>layer.update\<close> the event caused found it so.
\<close>

theorem removed_element_not_rendered:
  "list_all (\<lambda>m. \<not> removed hst m)
     (map fst (snd (fst (canvas_renderer opts hst render ctx hint s)))) \<and>
   list_all (\<lambda>m. \<not> removed hst m) (fst (dom_renderer opts hst hint_node s)) \<and>
   list_all (\<lambda>m. \<not> removed hst m) (rendered_in_pass ty opts hst hint s) \<and>
   nodes (removeNode n s) = removeAll n (nodes s) \<and>
   trace (removeNode n s) = trace s @ [Update (Some n) (removeAll n (nodes s))] \<and>
   (allowPartialUpdate opts \<longrightarrow> \<not> queryEachTime opts \<longrightarrow>
      nodes (emit opts (Remove n) (reachable opts host history)) =
        removeAll n (nodes (reachable opts host history)) \<and>
      n \<notin> set (nodes (emit opts (Remove n) (reachable opts host history))) \<and>
      (\<exists>extra. trace (emit opts (Remove n) (reachable opts host history)) =
                 trace (reachable opts host history) @ extra \<and>
         Update (Some n) (removeAll n (nodes (reachable opts host history))) \<in> set extra \<and>
         (\<forall>e \<in> set extra. e = UpdateOnRenderOnce \<or>
            e = Update (Some n) (removeAll n (nodes (reachable opts host history))))))"
proof -
  have a: "list_all (\<lambda>m. \<not> removed hst m)
     (map fst (snd (fst (canvas_renderer opts hst render ctx hint s))))"
    unfolding canvas_renderer_participants by (simp add: list_all_iff participates_def)
  have b: "allowPartialUpdate opts \<Longrightarrow> \<not> queryEachTime opts \<Longrightarrow>
      nodes (emit opts (Remove n) (reachable opts host history)) =
        removeAll n (nodes (reachable opts host history)) \<and>
      (\<exists>extra. trace (emit opts (Remove n) (reachable opts host history)) =
                 trace (reachable opts host history) @ extra \<and>
         Update (Some n) (removeAll n (nodes (reachable opts host history))) \<in> set extra \<and>
         (\<forall>e \<in> set extra. e = UpdateOnRenderOnce \<or>
            e = Update (Some n) (removeAll n (nodes (reachable opts host history)))))"
  proof -
    assume p: "allowPartialUpdate opts" and c: "\<not> queryEachTime opts"
    have g: "good opts (reachable opts host history)" by (rule good_reachable)
    then have inv: "binding_inv opts (reachable opts host history)"
      and r: "remove_node_listener opts \<in> set (listeners (reachable opts host history))"
      using p c by (simp_all add: good_def routed_def)
    show ?thesis by (rule emit_remove [OF inv r])
  qed
  have c: "list_all (\<lambda>m. \<not> removed hst m) (fst (dom_renderer opts hst hn s'))" for hn s'
    by (simp add: dom_renderer_def matchNodes_updated_def Let_def list_all_iff
        split: option.splits)
  have d: "list_all (\<lambda>m. \<not> removed hst m) (rendered_in_pass ty opts hst hint s)"
    unfolding rendered_in_pass_def canvas_renderer_participants
    using c [of None s] by (simp add: list_all_iff participates_def)
  show ?thesis using a b c [of hint_node s] d by (simp add: removeNode_fields)
qed

theorem removed_element_not_rendered_witness:
  "allowPartialUpdate opts_partial \<and> \<not> queryEachTime opts_partial \<and>
   removed host0 3 \<and>
   map fst (snd (fst (canvas_renderer opts_partial host0 shifting_render ctx0
                        \<lparr>forExport = True\<rparr> binding0))) = [1, 2] \<and>
   nodes (reachable opts_partial [1, 2, 3] []) = [1, 2, 3] \<and>
   nodes (emit opts_partial (Remove 2) (reachable opts_partial [1, 2, 3] [])) = [1, 3] \<and>
   2 \<notin> set (nodes (emit opts_partial (Remove 2) (reachable opts_partial [1, 2, 3] []))) \<and>
   list_all (\<lambda>m. \<not> removed host0 m)
     (map fst (snd (fst (canvas_renderer opts_partial host0 shifting_render ctx0
                         \<lparr>forExport = True\<rparr> binding0)))) \<and>
   nodes binding0 = [1, 2, 3] \<and>
   rendered_in_pass Html (opts_partial\<lparr>checkBounds := False\<rparr>) host0
     \<lparr>forExport = True\<rparr> binding0 = [1, 2] \<and>
   fst (dom_renderer opts_partial host0 (Some 3) binding0) = [] \<and>
   list_all (\<lambda>m. \<not> removed host0 m)
     (rendered_in_pass Html (opts_partial\<lparr>checkBounds := False\<rparr>) host0
        \<lparr>forExport = True\<rparr> binding0)"
proof -
  have e: "nodes binding0 = [1, 2, 3]"
    "rendered_in_pass Html (opts_partial\<lparr>checkBounds := False\<rparr>) host0
       \<lparr>forExport = True\<rparr> binding0 = [1, 2]"
    "fst (dom_renderer opts_partial host0 (Some 3) binding0) = []"
    by (simp_all add: rendered_in_pass_def dom_renderer_def matchNodes_updated_def isVisible_def
        opts_partial_def opts0_def host0_def binding0_def fresh_binding_def)
  have a: "allowPartialUpdate opts_partial" "\<not> queryEachTime opts_partial"
    by (simp_all add: opts_partial_def opts0_def)
  have b: "nodes (reachable opts_partial [1, 2, 3] []) = [1, 2, 3]"
    by (simp add: reachable_def emit_all_def renderPerNode_def opts_partial_def opts0_def
        Let_def cy_on_def reevaluate_fields fresh_binding_def)
  have c: "removed host0 3" by (simp add: host0_def)
  have d: "map fst (snd (fst (canvas_renderer opts_partial host0 shifting_render ctx0
                        \<lparr>forExport = True\<rparr> binding0))) = [1, 2]"
    by (simp add: canvas_renderer_participants)
       (simp add: canvas_renderer_def participates_def opts_partial_def opts0_def host0_def
          binding0_def fresh_binding_def)
  from removed_element_not_rendered [where hst = host0 and opts = opts_partial
      and render = shifting_render and ctx = ctx0 and hint = "\<lparr>forExport = True\<rparr>"
      and s = binding0 and hint_node = "Some 3" and ty = Html and n = 2
      and host = "[1, 2, 3]" and history = "[]"]
    removed_element_not_rendered [where hst = host0
      and opts = "opts_partial\<lparr>checkBounds := False\<rparr>"
      and render = shifting_render and ctx = ctx0 and hint = "\<lparr>forExport = True\<rparr>"
      and s = binding0 and hint_node = None and ty = Html and n = 2
      and host = "[1, 2, 3]" and history = "[]"]
    a b c d e
  show ?thesis by simp
qed

end
